theory Spec2Isabelle
  imports Complex_Main "HOL-Library.Word"
begin

section \<open>Numbers and typed arrays\<close>

text \<open>
  The audio code of \<^verbatim>\<open>src/components/speech.tsx\<close> computes on JavaScript numbers,
  which are binary64 floating-point numbers, and on the binary32 elements of a
  \<^verbatim>\<open>Float32Array\<close>. A finite number is modelled by the real it denotes (the two
  zeros are one), NaN by \<open>NaN\<close>. Reading a typed array outside its bounds yields
  \<^verbatim>\<open>undefined\<close>, which arithmetic turns into NaN: \<open>aget\<close> returns \<open>NaN\<close> there.

  \<open>mul64\<close>, \<open>add64\<close> and \<open>store32\<close> below are the operations as the machine
  performs them, each rounding its exact result to the nearest binary64 (or binary32)
  number; \<open>hasAudioContent\<close> and \<open>resampleAudio\<close> are built on them. \<open>nmul\<close> and
  \<open>nadd\<close> are the exact operations of the reals, in which the specification writes
  its formulas.
\<close>

datatype jsnum = Num real | NaN



definition aget :: "jsnum list \<Rightarrow> int \<Rightarrow> jsnum" where
  "aget xs i = (if 0 \<le> i \<and> i < int (length xs) then xs ! nat i else NaN)"

datatype js_error = RangeError

section \<open>The indices of resampleAudio (speech.tsx, lines 501-503)\<close>



section \<open>The resampled buffer of the specification\<close>



section \<open>Binary64 and binary32 rounding\<close>

text \<open>
  \<open>roundTo p emin\<close> is the rounding of IEEE 754 to the nearest number with \<open>p\<close>
  significant bits, ties to the even significand: \<open>binade x\<close> is the exponent \<open>e\<close> with
  \<open>2^e \<le> |x| < 2^(e+1)\<close>, the neighbouring numbers of the format are the multiples of
  \<open>2^(e - p + 1)\<close>, and below the smallest normal exponent \<open>emin\<close> the spacing stays that
  of \<open>emin\<close> (subnormal numbers). \<open>fl\<close> is the rounding of binary64, by which every
  arithmetic operation and \<^verbatim>\<open>Math.sqrt\<close> finish, and to which a decimal literal of the
  source is read; \<open>fround\<close> is the rounding of binary32, which a store into a
  \<^verbatim>\<open>Float32Array\<close> applies. Overflow to an infinity is not modelled: on the finite binary32
  samples of a decoded buffer and on positive sample rates, no operation of
  \<open>hasAudioContent\<close> and \<open>resampleAudio\<close> leaves the finite range.
\<close>

definition pow2 :: "int \<Rightarrow> real" where
  "pow2 e = (if 0 \<le> e then 2 ^ nat e else 1 / 2 ^ nat (- e))"

definition binade :: "real \<Rightarrow> int" where
  "binade x = \<lfloor>log 2 \<bar>x\<bar>\<rfloor>"

definition rne :: "real \<Rightarrow> int" where
  "rne z =
     (let f = \<lfloor>z\<rfloor>; d = z - real_of_int f
      in if d < 1 / 2 then f
         else if d > 1 / 2 then f + 1
         else if even f then f else f + 1)"

definition roundTo :: "nat \<Rightarrow> int \<Rightarrow> real \<Rightarrow> real" where
  "roundTo p emin x =
     (if x = 0 then 0
      else
        let u = pow2 (max (binade x) emin - int p + 1)
        in real_of_int (rne (x / u)) * u)"

definition fl :: "real \<Rightarrow> real" where
  "fl x = roundTo 53 (- 1022) x"

definition fround :: "real \<Rightarrow> real" where
  "fround x = roundTo 24 (- 126) x"

fun mul64 :: "jsnum \<Rightarrow> jsnum \<Rightarrow> jsnum" where
  "mul64 (Num a) (Num b) = Num (fl (a * b))"
| "mul64 _ _ = NaN"

fun add64 :: "jsnum \<Rightarrow> jsnum \<Rightarrow> jsnum" where
  "add64 (Num a) (Num b) = Num (fl (a + b))"
| "add64 _ _ = NaN"

fun store32 :: "jsnum \<Rightarrow> jsnum" where
  "store32 (Num a) = Num (fround a)"
| "store32 NaN = NaN"

section \<open>resampleAudio (speech.tsx, lines 493-510)\<close>

text \<open>
  The body of the loop for one \<open>i\<close> (lines 501-506): the product \<open>i * ratio\<close>, the
  difference \<open>index - indexFloor\<close>, \<open>1 - fraction\<close>, the two products and their sum are
  rounded to binary64, \<^verbatim>\<open>Math.floor\<close> and \<^verbatim>\<open>Math.min\<close> are exact, and the store into
  \<open>result\<close> rounds to binary32.
\<close>

definition resample_at :: "jsnum list \<Rightarrow> real \<Rightarrow> nat \<Rightarrow> jsnum" where
  "resample_at audioData ratio i =
     (let idx = fl (real i * ratio);
          lo = \<lfloor>idx\<rfloor>;
          hi = min (lo + 1) (int (length audioData) - 1);
          frac = fl (idx - real_of_int lo)
      in store32 (add64 (mul64 (aget audioData lo) (Num (fl (1 - frac))))
                        (mul64 (aget audioData hi) (Num frac))))"

text \<open>The loop \<^verbatim>\<open>for (let i = 0; i < newLength; i++)\<close>, started at \<open>i\<close>.\<close>

function resample_loop ::
  "jsnum list \<Rightarrow> real \<Rightarrow> nat \<Rightarrow> nat \<Rightarrow> jsnum list \<Rightarrow> jsnum list" where
  "resample_loop audioData ratio newLength i result =
     (if i < newLength
      then resample_loop audioData ratio newLength (i + 1)
             (result[i := resample_at audioData ratio i])
      else result)"
  by pat_completeness auto
termination
  by (relation "measure (\<lambda>(audioData, ratio, newLength, i, result). newLength - i)") auto

text \<open>
  \<open>ratio\<close> is the rounded quotient of the rates and \<open>newLength\<close> is \<^verbatim>\<open>Math.round\<close>
  (exact, halves up, as \<open>round\<close>) of the rounded quotient \<open>audioData.length / ratio\<close>.
  The rates are reals, so the quotients by zero that JavaScript evaluates to an infinity
  or to NaN are written out: a ratio that is zero (a zero \<open>fromRate\<close>, or a quotient
  that underflows) makes the new length infinite for a non-empty input, and NaN (an
  empty array) for an empty one; a zero \<open>toRate\<close> makes the ratio infinite and the new
  length 0. \<open>new Float32Array(newLength)\<close> throws a RangeError for a negative or
  infinite length and is filled with zeros otherwise (the limit that an engine puts on
  the size of an allocation is not modelled).
\<close>

definition resampleAudio ::
  "jsnum list \<Rightarrow> real \<Rightarrow> real \<Rightarrow> js_error + jsnum list" where
  "resampleAudio audioData fromRate toRate =
     (if fromRate = toRate then Inr audioData
      else if toRate = 0 then Inr []
      else
        let ratio = fl (fromRate / toRate)
        in if ratio = 0 then (if audioData = [] then Inr [] else Inl RangeError)
           else
             let newLength = round (fl (real (length audioData) / ratio))
             in if newLength < 0 then Inl RangeError
                else Inr (resample_loop audioData ratio (nat newLength) 0
                            (replicate (nat newLength) (Num 0))))"

section \<open>hasAudioContent (speech.tsx, lines 346-354)\<close>

text \<open>
  The loop accumulates \<open>sumSquares += audioData[i] * audioData[i]\<close> from 0, rounding
  the product and the sum to binary64 at each step. The quotient by the length and its
  square root are rounded in turn (\<^verbatim>\<open>Math.sqrt\<close> is the correctly rounded root, as
  the engines compute it). The root of the mean is NaN for an empty array
  (0 / 0) and for a NaN sum; a comparison with NaN is false.
\<close>

definition sumSquares :: "jsnum list \<Rightarrow> jsnum" where
  "sumSquares audioData = foldl (\<lambda>acc x. add64 acc (mul64 x x)) (Num 0) audioData"

fun rootMean :: "jsnum \<Rightarrow> nat \<Rightarrow> jsnum" where
  "rootMean (Num a) n = (if n = 0 then NaN else Num (fl (sqrt (fl (a / real n)))))"
| "rootMean NaN n = NaN"

fun ngreater :: "jsnum \<Rightarrow> real \<Rightarrow> bool" where
  "ngreater (Num a) t = (a > t)"
| "ngreater NaN t = False"

definition hasAudioContent :: "jsnum list \<Rightarrow> real \<Rightarrow> bool" where
  "hasAudioContent audioData threshold =
     (let rms = rootMean (sumSquares audioData) (length audioData)
      in ngreater rms threshold)"

section \<open>Strings\<close>

text \<open>
  A JavaScript string is a sequence of UTF-16 code units. \<open>lit\<close> writes an ASCII
  literal. \<open>isWhiteSpace\<close> is the set that both \<^verbatim>\<open>String.prototype.trim\<close> and the
  regular-expression class \<^verbatim>\<open>\s\<close> use (WhiteSpace and LineTerminator of ECMAScript).
\<close>

type_synonym code_unit = "16 word"
type_synonym jsstring = "code_unit list"

definition lit :: "string \<Rightarrow> jsstring" where
  "lit s = map of_char s"

definition isWhiteSpace :: "code_unit \<Rightarrow> bool" where
  "isWhiteSpace c =
     (c \<in> {0x09, 0x0A, 0x0B, 0x0C, 0x0D, 0x20, 0xA0, 0x1680, 0x2028, 0x2029, 0x202F,
            0x205F, 0x3000, 0xFEFF}
      \<or> (0x2000 \<le> c \<and> c \<le> 0x200A))"

definition trimStart :: "jsstring \<Rightarrow> jsstring" where
  "trimStart s = dropWhile isWhiteSpace s"

definition trimEnd :: "jsstring \<Rightarrow> jsstring" where
  "trimEnd s = rev (dropWhile isWhiteSpace (rev s))"

definition trim :: "jsstring \<Rightarrow> jsstring" where
  "trim s = trimEnd (trimStart s)"

text \<open>
  \<^verbatim>\<open>newText.replace(/\[BLANK_AUDIO\]/gi, '')\<close> (line 455). With the flag \<^verbatim>\<open>i\<close> and
  without \<^verbatim>\<open>u\<close>, a code unit matches a pattern character when both have the same
  canonical form, the upper case; no code unit outside ASCII canonicalizes to an ASCII
  one, so for this ASCII pattern only the ASCII letters need their upper case. With the
  flag \<^verbatim>\<open>g\<close> the matches are replaced from left to right, the search resuming after
  each match.
\<close>

definition canonicalize :: "code_unit \<Rightarrow> code_unit" where
  "canonicalize c = (if 0x61 \<le> c \<and> c \<le> 0x7A then c - 0x20 else c)"

fun matchesAt :: "jsstring \<Rightarrow> jsstring \<Rightarrow> bool" where
  "matchesAt [] s = True"
| "matchesAt (p # ps) [] = False"
| "matchesAt (p # ps) (c # cs) = (canonicalize c = canonicalize p \<and> matchesAt ps cs)"

definition BLANK_AUDIO :: jsstring where
  "BLANK_AUDIO = lit ''[BLANK_AUDIO]''"

function removeBlankAudio :: "jsstring \<Rightarrow> jsstring" where
  "removeBlankAudio [] = []"
| "removeBlankAudio (c # cs) =
     (if matchesAt BLANK_AUDIO (c # cs)
      then removeBlankAudio (drop (length BLANK_AUDIO) (c # cs))
      else c # removeBlankAudio cs)"
  by pat_completeness auto
termination
  by (relation "measure length") (auto simp: BLANK_AUDIO_def lit_def)

text \<open>\<^verbatim>\<open>/^[\s\[\]()]*$/.test(newText)\<close> (line 458): every code unit is in the class.\<close>

definition onlySpecial :: "jsstring \<Rightarrow> bool" where
  "onlySpecial s = list_all (\<lambda>c. isWhiteSpace c \<or> c \<in> {0x5B, 0x5D, 0x28, 0x29}) s"

text \<open>\<^verbatim>\<open>err.message.includes('decode')\<close> (line 471): a contiguous occurrence.\<close>

fun isPrefix :: "jsstring \<Rightarrow> jsstring \<Rightarrow> bool" where
  "isPrefix [] s = True"
| "isPrefix (p # ps) [] = False"
| "isPrefix (p # ps) (c # cs) = (c = p \<and> isPrefix ps cs)"

fun includes_str :: "jsstring \<Rightarrow> jsstring \<Rightarrow> bool" where
  "includes_str [] pat = (pat = [])"
| "includes_str (c # cs) pat = (isPrefix pat (c # cs) \<or> includes_str cs pat)"

section \<open>The state of the component (speech.tsx, lines 10-26)\<close>

text \<open>
  One record holds the React state, the refs, the closure variable of the detection loop
  and what the browser keeps for the component: the wall clock, the stop events that
  \<^verbatim>\<open>MediaRecorder.stop()\<close> has queued, whether an animation frame is requested, the
  suspended calls of \<open>processAudio\<close>, and a trace of the calls the component makes.

  A ref that is \<^verbatim>\<open>null\<close> is \<open>None\<close>. \<open>stream\<close> holds the stream's \<^verbatim>\<open>active\<close> flag,
  \<open>mediaRecorder\<close> the recorder's \<^verbatim>\<open>state\<close> (the component never pauses a recorder).
  \<open>silenceTimer\<close> holds a timer handle; the model records whether that timer is still
  to fire. Every assignment of \<^verbatim>\<open>null\<close> to the ref follows \<^verbatim>\<open>clearTimeout\<close> or happens in
  the timer's own callback, and the ref is set only when it is \<^verbatim>\<open>null\<close>, so no timer of
  the component is pending without being referenced.
  Blobs are byte sequences. The \<^verbatim>\<open>AudioContext\<close> that \<open>processAudio\<close> creates for
  decoding and closes on each of its exits holds nothing the component reads, and is not
  part of the state.
\<close>

type_synonym blob = "8 word list"

datatype recorder_state = inactive | recording

datatype context_state = running | closed

datatype timer = Armed | Fired

record audioBuffer =
  sampleRate :: real
  channelData :: "jsnum list"

datatype js_exn = Exn (message: "jsstring option")

datatype await_point =
    AwaitArrayBuffer blob
  | AwaitDecode
  | AwaitTranscribe

datatype caller = ProcessAudioAndContinue | StopListening

datatype task = Task (chunksToProcess: "blob list") (awaiting: await_point) (calledBy: caller)

datatype stop_site = BySilenceTimer | ByStopListening

datatype action =
    SetTimeout
  | ClearTimeout
  | RecorderStop stop_site
  | RecorderStart
  | TracksStop
  | ContextClose
  | Accepted "blob list"
  | DecodeAudioData blob
  | Transcribe "jsnum list"
  | SetTranscript "blob list" jsstring
  | SetError jsstring
  | ConsoleWarn
  | ConsoleError
  | Settled "blob list"

record st =
  isListening :: bool
  transcript :: jsstring
  isProcessing :: bool
  error :: "jsstring option"
  mediaRecorder :: "recorder_state option"
  audioChunks :: "blob list"
  stream :: "bool option"
  transcriber :: bool
  isProcessingRef :: bool
  analyser :: bool
  audioContext :: "context_state option"
  silenceTimer :: "timer option"
  lastSpeechTime :: int
  hasRecordedSpeech :: bool
  now :: int
  stopEvents :: nat
  frameRequested :: bool
  tasks :: "task list"
  trace :: "action list"

definition emit :: "action \<Rightarrow> st \<Rightarrow> st" where
  "emit a s = s\<lparr>trace := trace s @ [a]\<rparr>"

section \<open>processAudio (speech.tsx, lines 356-490)\<close>

text \<open>
  Each exit of an accepted call clears the busy flag and the \<open>isProcessing\<close> state; the
  trace records the moment as \<open>Settled\<close>, with the chunks the call had taken.
\<close>

definition settle :: "blob list \<Rightarrow> st \<Rightarrow> st" where
  "settle chunks s =
     emit (Settled chunks) (s\<lparr>isProcessingRef := False, isProcessing := False\<rparr>)"

text \<open>
  The synchronous part, up to \<^verbatim>\<open>await audioBlob.arrayBuffer()\<close> (lines 356-396). The
  result says whether the call is suspended (\<open>True\<close>) or has returned. An accepted call
  is recorded in the trace as \<open>Accepted\<close>, with the chunks it takes.
\<close>

definition processAudio :: "caller \<Rightarrow> st \<Rightarrow> st \<times> bool" where
  "processAudio k s =
     (if isProcessingRef s \<or> audioChunks s = [] \<or> \<not> transcriber s then (s, False)
      else
        let chunks = audioChunks s;
            s1 = emit (Accepted chunks)
                   (s\<lparr>isProcessingRef := True, isProcessing := True, audioChunks := []\<rparr>)
        in if chunks = [] then (settle chunks s1, False)
           else
             let audioBlob = concat chunks
             in if length audioBlob = 0 then (settle chunks s1, False)
                else (s1\<lparr>tasks := tasks s1 @ [Task chunks (AwaitArrayBuffer audioBlob) k]\<rparr>,
                      True))"

text \<open>The outer \<^verbatim>\<open>catch\<close> (lines 469-489).\<close>

definition catchHandler :: "blob list \<Rightarrow> js_exn \<Rightarrow> st \<Rightarrow> st" where
  "catchHandler chunks err s =
     (let s1 =
        (case message err of
           None \<Rightarrow>
             emit ConsoleError
               (emit (SetError (lit ''Transcription error: Unknown error''))
                  (s\<lparr>error := Some (lit ''Transcription error: Unknown error'')\<rparr>))
         | Some m \<Rightarrow>
             if m = [] then
               emit ConsoleError
                 (emit (SetError (lit ''Transcription error: Unknown error''))
                    (s\<lparr>error := Some (lit ''Transcription error: Unknown error'')\<rparr>))
             else if \<not> includes_str m (lit ''decode'') then
               emit ConsoleError
                 (emit (SetError (lit ''Transcription error: '' @ m))
                    (s\<lparr>error := Some (lit ''Transcription error: '' @ m)\<rparr>))
             else emit ConsoleWarn s)
      in settle chunks s1)"

text \<open>
  After \<^verbatim>\<open>decodeAudioData\<close> has resolved (lines 420-449). The literal \<^verbatim>\<open>0.005\<close>
  is the binary64 number nearest to it. A RangeError thrown by
  \<open>resampleAudio\<close> reaches the outer \<^verbatim>\<open>catch\<close>; its message is the engine's and does
  not contain \<^verbatim>\<open>decode\<close>.
\<close>

definition rangeErrorMessage :: jsstring where
  "rangeErrorMessage = lit ''Invalid typed array length''"

definition afterDecode :: "blob list \<Rightarrow> audioBuffer \<Rightarrow> st \<Rightarrow> st \<times> await_point option" where
  "afterDecode chunks buffer s =
     (let audioData = channelData buffer
      in if length audioData < 8000 then (settle chunks s, None)
         else if \<not> hasAudioContent audioData (fl 0.005) then (settle chunks s, None)
         else
           case (if sampleRate buffer \<noteq> 16000
                 then resampleAudio audioData (sampleRate buffer) 16000
                 else Inr audioData) of
             Inl RangeError \<Rightarrow> (catchHandler chunks (Exn (Some rangeErrorMessage)) s, None)
           | Inr audioData' \<Rightarrow> (emit (Transcribe audioData') s, Some AwaitTranscribe))"

text \<open>
  After the transcriber has resolved (lines 451-468). The result is the \<open>text\<close> of the
  returned object, \<open>None\<close> when the object or its text is missing.
\<close>

definition afterTranscribe :: "blob list \<Rightarrow> jsstring option \<Rightarrow> st \<Rightarrow> st" where
  "afterTranscribe chunks result s =
     (let s1 =
        (case result of
           None \<Rightarrow> s
         | Some text \<Rightarrow>
             if text = [] then s
             else
               let newText = trim text;
                   newText = trim (removeBlankAudio newText)
               in if newText \<noteq> [] \<and> \<not> onlySpecial newText
                  then emit (SetTranscript chunks newText)
                         (s\<lparr>transcript :=
                              transcript s @ (if transcript s \<noteq> [] then lit '' '' else [])
                                @ newText\<rparr>)
                  else s)
      in settle chunks s1)"

text \<open>
  What a suspended call does when the promise it awaits is settled. The result is
  \<open>None\<close> when the outcome is not one of the awaited promise.
\<close>

datatype outcome =
    ArrayBufferResolved
  | DecodeResolved audioBuffer
  | TranscribeResolved "jsstring option"
  | Rejected js_exn

fun continueTask ::
  "blob list \<Rightarrow> await_point \<Rightarrow> outcome \<Rightarrow> st \<Rightarrow> (st \<times> await_point option) option" where
  "continueTask chunks (AwaitArrayBuffer audioBlob) ArrayBufferResolved s =
     Some (if length audioBlob = 0 then (settle chunks s, None)
           else (emit (DecodeAudioData audioBlob) s, Some AwaitDecode))"
| "continueTask chunks (AwaitArrayBuffer audioBlob) (Rejected err) s =
     Some (catchHandler chunks err s, None)"
| "continueTask chunks AwaitDecode (DecodeResolved buffer) s =
     Some (afterDecode chunks buffer s)"
| "continueTask chunks AwaitDecode (Rejected decodeError) s =
     Some (settle chunks (emit ConsoleWarn s), None)"
| "continueTask chunks AwaitTranscribe (TranscribeResolved result) s =
     Some (afterTranscribe chunks result s, None)"
| "continueTask chunks AwaitTranscribe (Rejected err) s =
     Some (catchHandler chunks err s, None)"
| "continueTask chunks _ _ s = None"


section \<open>processAudioAndContinue (speech.tsx, lines 315-343)\<close>

text \<open>
  The part after \<^verbatim>\<open>await processAudio()\<close> (lines 326-342). \<open>start\<close> is called on an
  inactive recorder only, so it does not throw.
\<close>

definition restartRecording :: "st \<Rightarrow> st" where
  "restartRecording s =
     (if stream s = Some True \<and> mediaRecorder s \<noteq> None \<and> \<not> isProcessingRef s then
        let s1 = s\<lparr>audioChunks := [], lastSpeechTime := now s\<rparr>
        in if mediaRecorder s1 = Some inactive
           then emit RecorderStart (s1\<lparr>mediaRecorder := Some recording\<rparr>)
           else s1
      else s)"

text \<open>
  A continuation that awaits a promise already settled runs in the microtask checkpoint
  of the current event handler, before any other handler: when \<open>processAudio\<close> returns
  without suspending, the rest of \<open>processAudioAndContinue\<close> follows at once. When it
  suspends, the rest follows the settling of the suspended call (see \<open>resume\<close>).
\<close>

definition processAudioAndContinue :: "st \<Rightarrow> st" where
  "processAudioAndContinue s =
     (let s1 = (if silenceTimer s \<noteq> None
                then emit ClearTimeout (s\<lparr>silenceTimer := None\<rparr>) else s);
          (s2, suspended) = processAudio ProcessAudioAndContinue s1
      in if suspended then s2 else restartRecording s2)"

section \<open>The recorder's handlers (speech.tsx, lines 142-156)\<close>

definition ondataavailable :: "blob \<Rightarrow> st \<Rightarrow> st" where
  "ondataavailable data s =
     (if length data > 0 then s\<lparr>audioChunks := audioChunks s @ [data]\<rparr> else s)"

definition onstop :: "st \<Rightarrow> st" where
  "onstop s =
     (if stream s = Some True \<and> \<not> isProcessingRef s then processAudioAndContinue s else s)"

section \<open>stopListening (speech.tsx, lines 190-227)\<close>

text \<open>
  \<^verbatim>\<open>MediaRecorder.stop()\<close> makes the recorder inactive at once and queues the last
  \<^verbatim>\<open>dataavailable\<close> event and the \<^verbatim>\<open>stop\<close> event; it is called on a recorder that is not
  inactive, so it does not throw.
\<close>

definition stopRecorder :: "stop_site \<Rightarrow> st \<Rightarrow> st" where
  "stopRecorder site s =
     emit (RecorderStop site)
       (s\<lparr>mediaRecorder := Some inactive, stopEvents := stopEvents s + 1\<rparr>)"

definition stopListening :: "st \<Rightarrow> st" where
  "stopListening s =
     (let s1 = s\<lparr>isListening := False\<rparr>;
          s2 = (if silenceTimer s1 \<noteq> None
                then emit ClearTimeout (s1\<lparr>silenceTimer := None\<rparr>) else s1);
          s3 = (if mediaRecorder s2 \<noteq> None \<and> mediaRecorder s2 \<noteq> Some inactive
                then stopRecorder ByStopListening s2 else s2);
          s4 = (if stream s3 \<noteq> None
                then emit TracksStop (s3\<lparr>stream := None\<rparr>) else s3);
          s5 = (if audioContext s4 \<noteq> None \<and> audioContext s4 \<noteq> Some closed
                then emit ContextClose (s4\<lparr>audioContext := None\<rparr>) else s4);
          s6 = s5\<lparr>analyser := False\<rparr>
      in if audioChunks s6 \<noteq> [] \<and> \<not> isProcessingRef s6
         then fst (processAudio StopListening s6)
         else s6)"

section \<open>Voice activity detection (speech.tsx, lines 230-312)\<close>

definition bufferLength :: nat where
  "bufferLength = 2048"

definition silenceThreshold :: real where
  "silenceThreshold = 20"

definition silenceDuration :: int where
  "silenceDuration = 1500"

definition normalized :: "8 word \<Rightarrow> real" where
  "normalized d = (real (unat d) - 128) / 128"

definition amplitude :: "8 word list \<Rightarrow> real" where
  "amplitude dataArray =
     (let sumSquares = foldl (\<lambda>acc d. acc + normalized d * normalized d) 0 dataArray;
          rms = sqrt (sumSquares / real bufferLength)
      in rms * 255)"

text \<open>
  \<open>checkAudioLevel\<close>, with the time-domain data that the analyser has written into
  \<open>dataArray\<close>. The frame is requested again at the end while the stream is active.
\<close>

definition checkAudioLevel :: "8 word list \<Rightarrow> st \<Rightarrow> st" where
  "checkAudioLevel dataArray s =
     (if \<not> analyser s \<or> stream s \<noteq> Some True then s\<lparr>frameRequested := False\<rparr>
      else
        let s1 =
          (if amplitude dataArray > silenceThreshold then
             let s' = s\<lparr>lastSpeechTime := now s, hasRecordedSpeech := True\<rparr>
             in if silenceTimer s' \<noteq> None
                then emit ClearTimeout (s'\<lparr>silenceTimer := None\<rparr>) else s'
           else
             let timeSinceLastSpeech = now s - lastSpeechTime s
             in if hasRecordedSpeech s \<and>
                   timeSinceLastSpeech \<ge> silenceDuration \<and>
                   audioChunks s \<noteq> [] \<and>
                   \<not> isProcessingRef s \<and>
                   silenceTimer s = None \<and>
                   mediaRecorder s = Some recording
                then emit SetTimeout (s\<lparr>silenceTimer := Some Armed\<rparr>)
                else s)
        in s1\<lparr>frameRequested := (stream s1 = Some True)\<rparr>)"

text \<open>The callback of the timer (lines 283-299).\<close>

definition silenceTimeout :: "st \<Rightarrow> st" where
  "silenceTimeout s =
     (if mediaRecorder s = Some recording \<and> stream s = Some True \<and> \<not> isProcessingRef s
      then stopRecorder BySilenceTimer s
      else s\<lparr>silenceTimer := None\<rparr>)"

section \<open>Events of a session\<close>

text \<open>
  A session starts when \<open>startListening\<close> (lines 113-188) has succeeded: the model is
  loaded, the stream is active, the recorder records, the analyser exists, the chunks are
  empty, the error is cleared, \<open>startVoiceActivityDetection\<close> has created its
  \<open>hasRecordedSpeechRef\<close> as false and set the last speech time, and the first
  \<open>checkAudioLevel\<close> is about to run. No timer is set and no call is in flight (the
  button that starts a session is disabled while \<open>isProcessing\<close> holds).
\<close>

definition init :: "jsstring \<Rightarrow> int \<Rightarrow> st" where
  "init text0 time0 =
     \<lparr> isListening = True, transcript = text0, isProcessing = False, error = None,
       mediaRecorder = Some recording, audioChunks = [], stream = Some True,
       transcriber = True, isProcessingRef = False, analyser = True,
       audioContext = Some running, silenceTimer = None, lastSpeechTime = time0,
       hasRecordedSpeech = False, now = time0, stopEvents = 0, frameRequested = True,
       tasks = [], trace = [] \<rparr>"

text \<open>
  The events are those of the browser and the user during a session: the clock moves,
  an animation frame runs \<open>checkAudioLevel\<close>, the silence timer fires, the recorder
  delivers a chunk, the recorder delivers its queued stop (the last chunk, then
  \<^verbatim>\<open>onstop\<close>), the user stops, and a promise awaited by the \<open>k\<close>-th suspended call is
  settled. A frame that was not requested, a timer that is not pending, a stop that is not
  queued and an outcome that no suspended call awaits cannot happen, and leave the state
  unchanged. A chunk is accepted in every state, so that one delivered late, after the
  recorder was stopped, is covered.
\<close>

datatype event =
    Clock int
  | Frame "8 word list"
  | SilenceTimeout
  | DataAvailable blob
  | RecorderStopped blob
  | StopRequested
  | Resume nat outcome

definition resume :: "nat \<Rightarrow> outcome \<Rightarrow> st \<Rightarrow> st" where
  "resume k out s =
     (if k < length (tasks s) then
        let t = tasks s ! k
        in case continueTask (chunksToProcess t) (awaiting t) out s of
             None \<Rightarrow> s
           | Some (s1, Some a) \<Rightarrow>
               s1\<lparr>tasks := (tasks s1)[k := Task (chunksToProcess t) a (calledBy t)]\<rparr>
           | Some (s1, None) \<Rightarrow>
               let s2 = s1\<lparr>tasks := take k (tasks s1) @ drop (Suc k) (tasks s1)\<rparr>
               in if calledBy t = ProcessAudioAndContinue then restartRecording s2 else s2
      else s)"

fun step :: "st \<Rightarrow> event \<Rightarrow> st" where
  "step s (Clock t) = s\<lparr>now := t\<rparr>"
| "step s (Frame dataArray) =
     (if frameRequested s \<and> length dataArray = bufferLength
      then checkAudioLevel dataArray s else s)"
| "step s SilenceTimeout =
     (if silenceTimer s = Some Armed
      then silenceTimeout (s\<lparr>silenceTimer := Some Fired\<rparr>) else s)"
| "step s (DataAvailable data) = ondataavailable data s"
| "step s (RecorderStopped data) =
     (if stopEvents s > 0
      then onstop (ondataavailable data (s\<lparr>stopEvents := stopEvents s - 1\<rparr>)) else s)"
| "step s StopRequested = stopListening s"
| "step s (Resume k out) = resume k out s"

definition run :: "st \<Rightarrow> event list \<Rightarrow> st" where
  "run s evs = foldl step s evs"

section \<open>Reading a trace\<close>

text \<open>
  \<open>monitor\<close> reads a trace from left to right and follows the utterances. \<open>Idle\<close>:
  no utterance is cut or in flight. \<open>Cut\<close>: the silence timer has stopped the recorder
  (a boundary) and the utterance has not been handed over yet. \<open>InFlight c\<close>: a call of
  \<open>processAudio\<close> has taken the chunks \<open>c\<close> and has not settled. \<open>Violation\<close> is
  entered, and never left, when
  \<^item> a boundary occurs while an utterance is cut or in flight,
  \<^item> a call is accepted while another is in flight,
  \<^item> the decoder or the transcriber is called, the transcript is extended or a call
    settles while no call is in flight, or on behalf of other chunks than those in flight,
  \<^item> the recorder is started while an utterance is cut or in flight.
\<close>

datatype phase = Idle | Cut | InFlight "blob list" | Violation

fun monitor :: "phase \<Rightarrow> action \<Rightarrow> phase" where
  "monitor Violation a = Violation"
| "monitor p (RecorderStop BySilenceTimer) = (if p = Idle then Cut else Violation)"
| "monitor p (Accepted c) = (case p of InFlight c' \<Rightarrow> Violation | _ \<Rightarrow> InFlight c)"
| "monitor p (DecodeAudioData b) = (case p of InFlight c \<Rightarrow> p | _ \<Rightarrow> Violation)"
| "monitor p (Transcribe d) = (case p of InFlight c \<Rightarrow> p | _ \<Rightarrow> Violation)"
| "monitor p (SetTranscript c t) = (if p = InFlight c then p else Violation)"
| "monitor p (Settled c) = (if p = InFlight c then Idle else Violation)"
| "monitor p RecorderStart = (if p = Idle then Idle else Violation)"
| "monitor p a = p"

definition phase :: "st \<Rightarrow> phase" where
  "phase s = foldl monitor Idle (trace s)"

text \<open>The invariant of a session that the proofs below maintain.\<close>

definition session_inv :: "st \<Rightarrow> bool" where
  "session_inv s \<longleftrightarrow>
     transcriber s \<and>
     phase s \<noteq> Violation \<and>
     (phase s = Idle \<or> phase s = Cut \<longrightarrow> tasks s = [] \<and> \<not> isProcessingRef s) \<and>
     (phase s = Cut \<longrightarrow> mediaRecorder s = Some inactive \<and> audioChunks s \<noteq> []) \<and>
     (\<forall>c. phase s = InFlight c \<longrightarrow> isProcessingRef s \<and> (\<exists>a k. tasks s = [Task c a k])) \<and>
     (silenceTimer s = Some Armed \<longrightarrow> audioChunks s \<noteq> [] \<and> phase s = Idle)"

text \<open>
  A boundary is the stop of the recorder by the silence timer. \<open>speech_gated sp s evs\<close>
  runs the events \<open>evs\<close> from \<open>s\<close> and says whether every boundary that fires was
  preceded, since the previous boundary (or since \<open>s\<close>, where \<open>sp\<close> tells whether speech
  has been seen), by a frame whose amplitude exceeds the threshold.
\<close>

definition boundaries :: "action list \<Rightarrow> nat" where
  "boundaries tr = length (filter (\<lambda>a. a = RecorderStop BySilenceTimer) tr)"

fun loud :: "event \<Rightarrow> bool" where
  "loud (Frame dataArray) = (amplitude dataArray > silenceThreshold)"
| "loud _ = False"

fun speech_gated :: "bool \<Rightarrow> st \<Rightarrow> event list \<Rightarrow> bool" where
  "speech_gated sp s [] = True"
| "speech_gated sp s (e # evs) =
     (if boundaries (trace (step s e)) > boundaries (trace s)
      then sp \<and> speech_gated False (step s e) evs
      else speech_gated (sp \<or> loud e) (step s e) evs)"

text \<open>Two frames of the analyser: full-scale samples, and the silent level 128.\<close>

definition loudFrame :: "8 word list" where
  "loudFrame = replicate bufferLength 255"

definition silentFrame :: "8 word list" where
  "silentFrame = replicate bufferLength 128"

text \<open>\<open>precedes a b tr\<close>: the action \<open>a\<close> occurs in \<open>tr\<close> before the first \<open>b\<close>.\<close>

definition precedes :: "action \<Rightarrow> action \<Rightarrow> action list \<Rightarrow> bool" where
  "precedes a b tr = (a \<in> set (takeWhile (\<lambda>x. x \<noteq> b) tr))"

text \<open>
  Two relations used in the proofs about the detection loop: \<open>vad_untouched s s'\<close>
  says that going from \<open>s\<close> to \<open>s'\<close> has neither changed the speech flag, nor armed
  the timer, nor fired a boundary; \<open>silent_inv\<close> holds as long as no speech was seen.
\<close>

definition vad_untouched :: "st \<Rightarrow> st \<Rightarrow> bool" where
  "vad_untouched s s' \<longleftrightarrow>
     hasRecordedSpeech s' = hasRecordedSpeech s \<and>
     (silenceTimer s' = Some Armed \<longrightarrow> silenceTimer s = Some Armed) \<and>
     boundaries (trace s') = boundaries (trace s)"

definition silent_inv :: "st \<Rightarrow> bool" where
  "silent_inv s \<longleftrightarrow>
     \<not> hasRecordedSpeech s \<and> silenceTimer s \<noteq> Some Armed \<and> boundaries (trace s) = 0"

text \<open>A decoded buffer of half a second at 16 kHz, every sample 1.\<close>

definition toneBuffer :: audioBuffer where
  "toneBuffer = \<lparr>sampleRate = 16000, channelData = replicate 8000 (Num 1)\<rparr>"

text \<open>
  The texts that a trace appends to the transcript, in order, and the transcript they
  give from an initial text (each joined as line 459 does). \<open>appends s s'\<close>: going
  from \<open>s\<close> to \<open>s'\<close> has extended the trace, and the transcript by the texts of
  the extension.
\<close>

fun segments :: "action list \<Rightarrow> jsstring list" where
  "segments [] = []"
| "segments (SetTranscript c t # tr) = t # segments tr"
| "segments (a # tr) = segments tr"

definition joined :: "jsstring \<Rightarrow> jsstring list \<Rightarrow> jsstring" where
  "joined text0 ts = foldl (\<lambda>prev t. prev @ (if prev \<noteq> [] then lit '' '' else []) @ t) text0 ts"

definition appends :: "st \<Rightarrow> st \<Rightarrow> bool" where
  "appends s s' \<longleftrightarrow>
     (\<exists>new. trace s' = trace s @ new \<and> transcript s' = joined (transcript s) (segments new))"

text \<open>
  The root mean square as a formula of the reals, the square root of the mean of the
  squared samples, and the reals that are binary32 numbers.
\<close>

definition exactRms :: "real list \<Rightarrow> real" where
  "exactRms xs = sqrt (sum_list (map (\<lambda>x. x * x) xs) / real (length xs))"

definition isBinary32 :: "real \<Rightarrow> bool" where
  "isBinary32 x = (fround x = x)"

text \<open>
  A buffer of 8000 binary32 samples: one large, two small and 7997 tiny ones, each of
  the tiny squares a little more than half the spacing of binary64 at the sum.
\<close>

definition quietSamples :: "real list" where
  "quietSamples =
     [7502999 / 2 ^ 24, 9288 / 2 ^ 27, 105 / 2 ^ 27] @ replicate 7997 (8388609 / 2 ^ 51)"

section \<open>The reads of resampleAudio\<close>




section \<open>Rounding to the nearest binary number\<close>

lemma pow2_powr: "pow2 e = 2 powr (real_of_int e)"
proof (cases "0 \<le> e")
  case True
  then have "real_of_int e = real (nat e)" by simp
  then show ?thesis using True by (simp add: pow2_def powr_realpow del: of_nat_nat)
next
  case False
  then have "real_of_int e = - real (nat (- e))" by simp
  then have "2 powr (real_of_int e) = 1 / 2 powr real (nat (- e))"
    by (simp add: powr_minus_divide del: of_nat_nat)
  then show ?thesis using False by (simp add: pow2_def powr_realpow del: of_nat_nat)
qed

lemma pow2_pos [simp]: "0 < pow2 e"
  by (simp add: pow2_def)

lemma pow2_add: "pow2 (a + b) = pow2 a * pow2 b"
  by (simp add: pow2_powr powr_add)

lemma pow2_less_iff: "pow2 a < pow2 b \<longleftrightarrow> a < b"
  by (simp add: pow2_powr)

lemma pow2_le_iff: "pow2 a \<le> pow2 b \<longleftrightarrow> a \<le> b"
  by (simp add: pow2_powr)

lemma pow2_nonneg_int: "0 \<le> k \<Longrightarrow> pow2 k = real_of_int (2 ^ nat k)"
  by (simp add: pow2_def)

lemma binade_eq:
  assumes "pow2 e \<le> x" and "x < pow2 (e + 1)"
  shows "binade x = e"
proof -
  have x: "0 < x" using assms(1) pow2_pos [of e] by linarith
  have "\<lfloor>log 2 x\<rfloor> = e"
    using assms x by (subst floor_log_eq_powr_iff) (simp_all add: pow2_powr)
  then show ?thesis using x by (simp add: binade_def)
qed

lemma binade_bounds:
  assumes "x \<noteq> 0"
  shows "pow2 (binade x) \<le> \<bar>x\<bar> \<and> \<bar>x\<bar> < pow2 (binade x + 1)"
proof -
  have "0 < \<bar>x\<bar>" using assms by simp
  then show ?thesis
    using floor_log_eq_powr_iff [of "\<bar>x\<bar>" 2 "binade x"]
    by (simp add: binade_def pow2_powr)
qed

lemma rne_nearest:
  assumes "\<bar>z - real_of_int j\<bar> < 1 / 2"
  shows "rne z = j"
proof -
  have a: "real_of_int j - 1 / 2 < z" "z < real_of_int j + 1 / 2" using assms by linarith+
  show ?thesis
  proof (cases "z < real_of_int j")
    case True
    have "\<lfloor>z\<rfloor> = j - 1" using a True by (simp add: floor_unique)
    then show ?thesis using a True by (simp add: rne_def Let_def)
  next
    case False
    have "\<lfloor>z\<rfloor> = j" using a False by (simp add: floor_unique)
    then show ?thesis using a False by (simp add: rne_def Let_def)
  qed
qed

lemma rne_int [simp]: "rne (real_of_int j) = j"
  by (rule rne_nearest) simp

lemma roundTo_nearest:
  assumes e: "emin \<le> e" and lo: "pow2 e \<le> y" and hi: "y < pow2 (e + 1)"
    and near: "\<bar>y - real_of_int j * pow2 (e - int p + 1)\<bar> < pow2 (e - int p + 1) / 2"
  shows "roundTo p emin y = real_of_int j * pow2 (e - int p + 1)"
proof -
  define u where "u = pow2 (e - int p + 1)"
  have u: "0 < u" by (simp add: u_def)
  have y: "y \<noteq> 0" using lo pow2_pos [of e] by linarith
  have b: "binade y = e" using lo hi by (rule binade_eq)
  have "\<bar>y / u - real_of_int j\<bar> = \<bar>y - real_of_int j * u\<bar> / u"
    using u by (simp add: field_simps abs_if)
  also have "\<dots> < (u / 2) / u" using near u unfolding u_def [symmetric]
    by (simp add: divide_strict_right_mono)
  finally have "\<bar>y / u - real_of_int j\<bar> < 1 / 2" using u by simp
  then have "rne (y / u) = j" by (rule rne_nearest)
  then show ?thesis using y b e by (simp add: roundTo_def Let_def u_def max_def)
qed

lemma fl_nearest:
  assumes "- 1022 \<le> e" "pow2 e \<le> y" "y < pow2 (e + 1)"
    and "\<bar>y - real_of_int j * pow2 (e - 52)\<bar> < pow2 (e - 52) / 2"
  shows "fl y = real_of_int j * pow2 (e - 52)"
  using roundTo_nearest [of "- 1022" e y j 53] assms by (simp add: fl_def)


lemma roundTo_exact:
  assumes x: "x = real_of_int m * pow2 k" and m: "\<bar>m\<bar> < 2 ^ p"
    and k: "emin - int p + 1 \<le> k"
  shows "roundTo p emin x = x"
proof (cases "x = 0")
  case True
  then show ?thesis by (simp add: roundTo_def)
next
  case False
  define E where "E = max (binade x) emin"
  have bb: "pow2 (binade x) \<le> \<bar>x\<bar>" using binade_bounds [OF False] by simp
  have "\<bar>pow2 k\<bar> = pow2 k" using pow2_pos [of k] by linarith
  then have "\<bar>x\<bar> = real_of_int \<bar>m\<bar> * pow2 k" using x by (simp add: abs_mult)
  also have "\<dots> < real_of_int (2 ^ p) * pow2 k"
    using m by (intro mult_strict_right_mono) (simp_all del: of_int_power)
  also have "\<dots> = pow2 (int p) * pow2 k" by (simp add: pow2_def)
  also have "\<dots> = pow2 (int p + k)" by (simp only: pow2_add)
  finally have "pow2 (binade x) < pow2 (int p + k)" using bb by linarith
  then have "binade x < int p + k" by (simp add: pow2_less_iff)
  then have d: "0 \<le> k - (E - int p + 1)" using k by (simp add: E_def)
  define n where "n = nat (k - (E - int p + 1))"
  have "pow2 k = pow2 ((k - (E - int p + 1)) + (E - int p + 1))" by simp
  also have "\<dots> = pow2 (k - (E - int p + 1)) * pow2 (E - int p + 1)"
    by (rule pow2_add)
  also have "\<dots> = real_of_int (2 ^ n) * pow2 (E - int p + 1)"
    using d by (simp add: pow2_nonneg_int n_def)
  finally have "x = real_of_int (m * 2 ^ n) * pow2 (E - int p + 1)"
    using x by simp
  moreover have "pow2 (E - int p + 1) \<noteq> 0"
    using pow2_pos [of "E - int p + 1"] by linarith
  ultimately have "x / pow2 (E - int p + 1) = real_of_int (m * 2 ^ n)"
    by simp
  then have "real_of_int (rne (x / pow2 (E - int p + 1))) * pow2 (E - int p + 1) = x"
    using \<open>x = real_of_int (m * 2 ^ n) * pow2 (E - int p + 1)\<close> by (simp only: rne_int)
  then show ?thesis using False by (simp add: roundTo_def Let_def E_def)
qed

lemma fl_exact:
  assumes "x = real_of_int m * pow2 k" "\<bar>m\<bar> < 2 ^ 53" "- 1074 \<le> k"
  shows "fl x = x"
  using roundTo_exact [of x m k 53 "- 1022"] assms by (simp add: fl_def)

lemma fround_exact:
  assumes "x = real_of_int m * pow2 k" "\<bar>m\<bar> < 2 ^ 24" "- 149 \<le> k"
  shows "fround x = x"
  using roundTo_exact [of x m k 24 "- 126"] assms by (simp add: fround_def)

lemma fl_0 [simp]: "fl 0 = 0"
  by (simp add: fl_def roundTo_def)

section \<open>Sums of squares in binary64\<close>

lemma fl_half_percent: "fl (1 / 200) = 5764607523034235 * pow2 (- 60)"
  using fl_nearest [of "- 8" "1 / 200" 5764607523034235]
  by (simp add: pow2_def)

lemma sum_exact_steps:
  assumes c: "x * x = c" and r: "c = real_of_int m * pow2 k" and m: "0 < m"
    and k: "- 1074 \<le> k" and j: "0 \<le> j" and b: "(j + int n) * m < 2 ^ 53"
  shows "foldl (\<lambda>acc y. add64 acc (mul64 y y)) (Num (real_of_int j * c)) (replicate n (Num x))
           = Num (real_of_int (j + int n) * c)"
  using j b
proof (induction n arbitrary: j)
  case 0
  then show ?case by simp
next
  case (Suc n)
  have m1: "m \<le> (j + 1) * m" using Suc.prems(1) m by (simp add: mult_le_cancel_right1)
  have "(j + 1) * m \<le> (j + int (Suc n)) * m"
    using m by (simp add: mult_right_mono)
  then have b1: "(j + 1) * m < 2 ^ 53" using Suc.prems(2) by linarith
  then have "\<bar>m\<bar> < 2 ^ 53" using m m1 by linarith
  then have fc: "fl c = c" using fl_exact [OF r _ k] by simp
  have "real_of_int j * c + c = real_of_int ((j + 1) * m) * pow2 k"
    using r by (simp add: algebra_simps)
  moreover have "\<bar>(j + 1) * m\<bar> < 2 ^ 53" using b1 Suc.prems(1) m by simp
  ultimately have fs: "fl (real_of_int j * c + c) = real_of_int (j + 1) * c"
    using fl_exact [of "real_of_int j * c + c" "(j + 1) * m" k] k r
    by (simp add: algebra_simps)
  have "foldl (\<lambda>acc y. add64 acc (mul64 y y)) (Num (real_of_int j * c))
          (replicate (Suc n) (Num x))
        = foldl (\<lambda>acc y. add64 acc (mul64 y y)) (Num (real_of_int (j + 1) * c))
            (replicate n (Num x))"
    using c fc fs by simp
  also have "\<dots> = Num (real_of_int ((j + 1) + int n) * c)"
  proof (rule Suc.IH)
    show "0 \<le> j + 1" using Suc.prems(1) by simp
    show "(j + 1 + int n) * m < 2 ^ 53" using Suc.prems(2) by (simp add: ac_simps)
  qed
  finally show ?case by (simp add: ac_simps)
qed

lemma round_up_steps:
  assumes t: "fl (x * x) = tau" and u: "u = pow2 (e - 52)" and e: "- 1022 \<le> e"
    and lo: "u / 2 < tau" and hi: "tau < u"
    and j: "2 ^ 52 \<le> j" and b: "j + int n \<le> 2 ^ 53"
  shows "foldl (\<lambda>acc y. add64 acc (mul64 y y)) (Num (real_of_int j * u)) (replicate n (Num x))
           = Num (real_of_int (j + int n) * u)"
  using j b
proof (induction n arbitrary: j)
  case 0
  then show ?case by simp
next
  case (Suc n)
  have up: "0 < u" using u by simp
  have p52: "pow2 52 = 2 ^ 52" "pow2 53 = 2 ^ 53" by (simp_all add: pow2_def)
  have "pow2 (52 + (e - 52)) = pow2 52 * pow2 (e - 52)" by (rule pow2_add)
  then have pe: "pow2 e = 2 ^ 52 * u" using u p52 by simp
  have "pow2 (53 + (e - 52)) = pow2 53 * pow2 (e - 52)" by (rule pow2_add)
  then have pe1: "pow2 (e + 1) = 2 ^ 53 * u" using u p52 by (simp add: ac_simps)
  have "2 ^ 52 * u \<le> real_of_int j * u"
    using Suc.prems(1) up by (intro mult_right_mono) (simp_all add: of_int_le_numeral_power_cancel_iff)
  then have l: "pow2 e \<le> real_of_int j * u + tau" using pe lo up by linarith
  have "real_of_int (j + 1) * u \<le> 2 ^ 53 * u"
    using Suc.prems(2) up
    by (intro mult_right_mono) (simp_all add: of_int_le_numeral_power_cancel_iff)
  then have h: "real_of_int j * u + tau < pow2 (e + 1)"
    using pe1 hi by (simp add: algebra_simps)
  have n: "\<bar>(real_of_int j * u + tau) - real_of_int (j + 1) * pow2 (e - 52)\<bar> < pow2 (e - 52) / 2"
    using lo hi u by (simp add: algebra_simps abs_if)
  have fs: "fl (real_of_int j * u + tau) = real_of_int (j + 1) * u"
    using fl_nearest [OF e l h n] u by simp
  have "foldl (\<lambda>acc y. add64 acc (mul64 y y)) (Num (real_of_int j * u))
          (replicate (Suc n) (Num x))
        = foldl (\<lambda>acc y. add64 acc (mul64 y y)) (Num (real_of_int (j + 1) * u))
            (replicate n (Num x))"
    using t fs by simp
  also have "\<dots> = Num (real_of_int ((j + 1) + int n) * u)"
  proof (rule Suc.IH)
    show "2 ^ 52 \<le> j + 1" using Suc.prems(1) by simp
    show "j + 1 + int n \<le> 2 ^ 53" using Suc.prems(2) by (simp add: ac_simps)
  qed
  finally show ?case by (simp add: ac_simps)
qed

section \<open>resampleAudio: the loop and its roundings\<close>

lemma fround_0 [simp]: "fround 0 = 0"
  by (simp add: fround_def roundTo_def)

lemma rne_ge:
  assumes "real_of_int k \<le> z"
  shows "k \<le> rne z"
proof -
  have "k \<le> \<lfloor>z\<rfloor>" using assms by (simp add: le_floor_iff)
  then show ?thesis by (simp add: rne_def Let_def)
qed

lemma roundTo_nonneg:
  assumes "0 \<le> x"
  shows "0 \<le> roundTo p emin x"
proof (cases "x = 0")
  case True
  then show ?thesis by (simp add: roundTo_def)
next
  case False
  define u where "u = pow2 (max (binade x) emin - int p + 1)"
  have u: "0 < u" by (simp add: u_def)
  have "real_of_int 0 \<le> x / u" using assms u by simp
  then have "0 \<le> rne (x / u)" by (rule rne_ge)
  then have "0 \<le> real_of_int (rne (x / u)) * u" using u by simp
  then show ?thesis using False by (simp add: roundTo_def Let_def u_def)
qed

lemma fl_nonneg: "0 \<le> x \<Longrightarrow> 0 \<le> fl x"
  by (simp add: fl_def roundTo_nonneg)
















section \<open>The reads of the rounded loop\<close>

lemma pow2_nonneg [simp]: "0 \<le> pow2 e"
  using pow2_pos [of e] by linarith

lemma pow2_neq_0 [simp]: "pow2 e \<noteq> 0"
  using pow2_pos [of e] by linarith

lemma rne_error: "\<bar>real_of_int (rne z) - z\<bar> \<le> 1 / 2"
proof -
  define d where "d = z - real_of_int \<lfloor>z\<rfloor>"
  have a: "0 \<le> d" "d < 1" unfolding d_def by linarith+
  consider "d < 1 / 2" | "d > 1 / 2" | "d = 1 / 2" by linarith
  then show ?thesis
  proof cases
    case 1
    then have "rne z = \<lfloor>z\<rfloor>" by (simp add: rne_def Let_def d_def)
    then show ?thesis using 1 a by (simp add: d_def)
  next
    case 2
    then have "rne z = \<lfloor>z\<rfloor> + 1" by (simp add: rne_def Let_def d_def)
    then show ?thesis using 2 a by (simp add: d_def)
  next
    case 3
    then have "rne z = \<lfloor>z\<rfloor> \<or> rne z = \<lfloor>z\<rfloor> + 1" by (simp add: rne_def Let_def d_def)
    then show ?thesis using 3 by (auto simp: d_def)
  qed
qed

lemma roundTo_error:
  assumes "x \<noteq> 0"
  shows "\<bar>roundTo p emin x - x\<bar> \<le> pow2 (max (binade x) emin - int p + 1) / 2"
proof -
  define u where "u = pow2 (max (binade x) emin - int p + 1)"
  have u: "0 < u" by (simp add: u_def)
  have "roundTo p emin x - x = (real_of_int (rne (x / u)) - x / u) * u"
    using assms u by (simp add: roundTo_def Let_def u_def field_simps)
  then have "\<bar>roundTo p emin x - x\<bar> = \<bar>real_of_int (rne (x / u)) - x / u\<bar> * u"
    using u by (simp add: abs_mult)
  also have "\<dots> \<le> (1 / 2) * u"
    using rne_error [of "x / u"] u by (intro mult_right_mono) simp_all
  finally show ?thesis by (simp add: u_def)
qed

lemma binade_normal:
  assumes "pow2 (- 1022) \<le> x"
  shows "- 1022 \<le> binade x"
proof -
  have x: "0 < x" using assms pow2_pos [of "- 1022"] by linarith
  have "x < pow2 (binade x + 1)" using binade_bounds [of x] x by simp
  then have "pow2 (- 1022) < pow2 (binade x + 1)" using assms by linarith
  then have "- 1022 < binade x + 1" by (simp add: pow2_less_iff)
  then show ?thesis by simp
qed

lemma fl_relative_error:
  assumes "pow2 (- 1022) \<le> x"
  shows "\<bar>fl x - x\<bar> \<le> x * pow2 (- 53)"
proof -
  have x: "0 < x" using assms pow2_pos [of "- 1022"] by linarith
  have b: "- 1022 \<le> binade x" using assms by (rule binade_normal)
  have "\<bar>fl x - x\<bar> \<le> pow2 (max (binade x) (- 1022) - int 53 + 1) / 2"
    unfolding fl_def using x by (intro roundTo_error) simp
  also have "max (binade x) (- 1022) - int 53 + 1 = binade x + (- 52)" using b by simp
  also have "pow2 (binade x + (- 52)) / 2 = pow2 (binade x) * pow2 (- 53)"
    by (simp only: pow2_add) (simp add: pow2_def)
  also have "\<dots> \<le> x * pow2 (- 53)"
    using binade_bounds [of x] x by (intro mult_right_mono) simp_all
  finally show ?thesis .
qed

lemma fl_subnormal_error:
  assumes "0 \<le> x" and "x < pow2 (- 1022)"
  shows "\<bar>fl x - x\<bar> \<le> pow2 (- 1075)"
proof (cases "x = 0")
  case True
  then show ?thesis using pow2_pos [of "- 1075"] by simp
next
  case False
  then have x: "0 < x" using assms by simp
  have "pow2 (binade x) \<le> x" using binade_bounds [of x] x by simp
  then have "pow2 (binade x) < pow2 (- 1022)" using assms by linarith
  then have b: "binade x < - 1022" by (simp add: pow2_less_iff)
  have "\<bar>fl x - x\<bar> \<le> pow2 (max (binade x) (- 1022) - int 53 + 1) / 2"
    unfolding fl_def using False by (intro roundTo_error)
  also have "max (binade x) (- 1022) - int 53 + 1 = - 1074" using b by simp
  also have "pow2 (- 1074) / 2 = pow2 (- 1075)"
    using pow2_add [of "- 1075" 1] by (simp add: pow2_def)
  finally show ?thesis .
qed

lemma fl_normal:
  assumes "pow2 (- 1022) \<le> x"
  shows "pow2 (- 1022) \<le> fl x"
proof -
  have x: "0 < x" using assms pow2_pos [of "- 1022"] by linarith
  have b: "- 1022 \<le> binade x" using assms by (rule binade_normal)
  define u where "u = pow2 (binade x - 52)"
  have u: "0 < u" by (simp add: u_def)
  have e: "pow2 (binade x) = real_of_int (2 ^ 52) * u"
    using pow2_add [of 52 "binade x - 52"] by (simp add: u_def pow2_def)
  have "real_of_int (2 ^ 52) * u \<le> x" using binade_bounds [of x] x e by simp
  then have "real_of_int (2 ^ 52) \<le> x / u" using u by (simp add: field_simps)
  then have "2 ^ 52 \<le> rne (x / u)" by (rule rne_ge)
  then have "real_of_int (2 ^ 52) \<le> real_of_int (rne (x / u))" by linarith
  then have "real_of_int (2 ^ 52) * u \<le> real_of_int (rne (x / u)) * u"
    using u by (intro mult_right_mono) simp_all
  moreover have "fl x = real_of_int (rne (x / u)) * u"
    using x b by (simp add: fl_def roundTo_def Let_def u_def max_def)
  moreover have "pow2 (- 1022) \<le> pow2 (binade x)" using b by (simp add: pow2_le_iff)
  ultimately show ?thesis using e by linarith
qed


lemma rounded_index_bounds:
  assumes L: "0 < L" and rho: "pow2 (- 1022) \<le> rho"
    and sz: "real L * pow2 (- 50) \<le> rho"
    and i: "int i < round (fl (real L / fl rho))"
  shows "0 \<le> fl (real i * fl rho) \<and> fl (real i * fl rho) < real L"
proof -
  define eps where "eps = pow2 (- 53)"
  define r where "r = fl rho"
  define q where "q = fl (real L / r)"
  have eps: "0 < eps" "eps \<le> 1 / 2" by (simp_all add: eps_def pow2_def)
  have p51: "pow2 (- 50) = 8 * eps" by (simp add: eps_def pow2_def)
  have rn: "pow2 (- 1022) \<le> r" unfolding r_def using rho by (rule fl_normal)
  have r0: "0 < r" using rn pow2_pos [of "- 1022"] by linarith
  have rho0: "0 < rho" using rho pow2_pos [of "- 1022"] by linarith
  have "\<bar>r - rho\<bar> \<le> rho * eps"
    unfolding r_def eps_def using rho by (rule fl_relative_error)
  moreover have "rho * eps \<le> rho * (1 / 2)"
    using eps rho0 by (intro mult_left_mono) simp_all
  ultimately have rl: "rho \<le> 2 * r" by (simp add: abs_if split: if_splits)
  have d: "real L * (4 * eps) \<le> r" using sz rl by (simp add: p51)
  have "int i + 1 \<le> round q" using i unfolding q_def r_def by simp
  then have "real_of_int (int i + 1) \<le> real_of_int (round q)"
    using of_int_le_iff by blast
  also have "\<dots> \<le> q + 1 / 2" by (rule of_int_round_le)
  finally have qi: "real i \<le> q - 1 / 2" by simp
  have qh: "1 / 2 \<le> q" using qi by simp
  have x0: "0 \<le> real L / r" using r0 by simp
  have nq: "pow2 (- 1022) \<le> real L / r"
  proof (rule ccontr)
    assume "\<not> pow2 (- 1022) \<le> real L / r"
    then have lt: "real L / r < pow2 (- 1022)" by simp
    have "\<bar>q - real L / r\<bar> \<le> pow2 (- 1075)"
      unfolding q_def using x0 lt by (rule fl_subnormal_error)
    then have "q \<le> pow2 (- 1022) + pow2 (- 1075)" using lt by (simp add: abs_if split: if_splits)
    moreover have "pow2 (- 1022) + pow2 (- 1075) < 1 / 2"
    proof -
      have "pow2 (- 1022) \<le> pow2 (- 3)" "pow2 (- 1075) \<le> pow2 (- 3)"
        by (simp_all add: pow2_le_iff)
      moreover have "pow2 (- 3) = 1 / 8" by (simp add: pow2_def)
      ultimately show ?thesis by linarith
    qed
    ultimately show False using qh by linarith
  qed
  have "\<bar>q - real L / r\<bar> \<le> real L / r * eps"
    unfolding q_def eps_def using nq by (rule fl_relative_error)
  then have "q \<le> real L / r + real L / r * eps" by (simp add: abs_if split: if_splits)
  then have "q * r \<le> (real L / r + real L / r * eps) * r"
    using r0 by (intro mult_right_mono) simp_all
  also have "\<dots> = real L * (1 + eps)" using r0 by (simp add: field_simps)
  finally have qr: "q * r \<le> real L * (1 + eps)" .
  have "real i * r \<le> (q - 1 / 2) * r"
    using qi r0 by (intro mult_right_mono) simp_all
  also have "\<dots> = q * r - r / 2" by (simp add: algebra_simps)
  finally have ir: "real i * r \<le> real L * (1 + eps) - r / 2" using qr by linarith
  have lo: "0 \<le> fl (real i * r)" using r0 by (intro fl_nonneg) simp
  have hi: "fl (real i * r) < real L"
  proof (cases "i = 0")
    case True
    then show ?thesis using L by simp
  next
    case False
    then have "1 \<le> real i" by simp
    then have "1 * r \<le> real i * r" using r0 by (intro mult_right_mono) simp_all
    then have n: "pow2 (- 1022) \<le> real i * r" using rn by simp
    have "\<bar>fl (real i * r) - real i * r\<bar> \<le> real i * r * eps"
      unfolding eps_def using n by (rule fl_relative_error)
    then have "fl (real i * r) \<le> real i * r * (1 + eps)"
      by (simp add: abs_if algebra_simps split: if_splits)
    also have "\<dots> \<le> (real L * (1 + eps) - r / 2) * (1 + eps)"
      using ir eps by (intro mult_right_mono) simp_all
    finally have u: "fl (real i * r) \<le> (real L * (1 + eps) - r / 2) * (1 + eps)" .
    define t where "t = r / 2 - 2 * eps * real L"
    have t0: "0 \<le> t" using d by (simp add: t_def algebra_simps)
    have "(real L * (1 + eps) - r / 2) * (1 + eps)
            = real L - real L * (eps * eps) - t * (1 + eps)"
      by (simp add: t_def algebra_simps)
    moreover have "0 < real L * (eps * eps)" using L eps by simp
    moreover have "0 \<le> t * (1 + eps)" using t0 eps by simp
    ultimately have "(real L * (1 + eps) - r / 2) * (1 + eps) < real L" by linarith
    then show ?thesis using u by linarith
  qed
  show ?thesis using lo hi by (simp add: r_def)
qed

text \<open>
  The index that the loop computes, the rounded product \<open>i * ratio\<close> with the rounded
  ratio, below the rounded new length: its floor and the clamped \<open>indexCeil\<close> lie in
  \<open>[0, inputLength - 1]\<close> as well, for rates whose quotient is a normal binary64 number
  and a new length of at most \<open>2^50\<close> samples, which every buffer that fits in memory
  has.
\<close>

lemma resample_at_reads_in_bounds:
  assumes a: "audioData \<noteq> []" and f: "0 < fromRate" and t: "0 < toRate"
    and n: "pow2 (- 1022) \<le> fromRate / toRate"
    and sz: "real (length audioData) * toRate / fromRate \<le> 2 ^ 50"
    and i: "int i < round (fl (real (length audioData) / fl (fromRate / toRate)))"
  shows "0 \<le> \<lfloor>fl (real i * fl (fromRate / toRate))\<rfloor>
       \<and> \<lfloor>fl (real i * fl (fromRate / toRate))\<rfloor> \<le> int (length audioData) - 1
       \<and> 0 \<le> min (\<lfloor>fl (real i * fl (fromRate / toRate))\<rfloor> + 1) (int (length audioData) - 1)
       \<and> min (\<lfloor>fl (real i * fl (fromRate / toRate))\<rfloor> + 1) (int (length audioData) - 1)
           \<le> int (length audioData) - 1
       \<and> aget audioData \<lfloor>fl (real i * fl (fromRate / toRate))\<rfloor>
           = audioData ! nat \<lfloor>fl (real i * fl (fromRate / toRate))\<rfloor>
       \<and> aget audioData
             (min (\<lfloor>fl (real i * fl (fromRate / toRate))\<rfloor> + 1) (int (length audioData) - 1))
           = audioData
               ! nat (min (\<lfloor>fl (real i * fl (fromRate / toRate))\<rfloor> + 1)
                          (int (length audioData) - 1))"
proof -
  define idx where "idx = fl (real i * fl (fromRate / toRate))"
  have L: "0 < length audioData" using a by simp
  have "real (length audioData) * toRate \<le> 2 ^ 50 * fromRate"
    using sz f by (simp add: field_simps)
  then have "real (length audioData) \<le> 2 ^ 50 * (fromRate / toRate)"
    using t by (simp add: field_simps)
  then have s: "real (length audioData) * pow2 (- 50) \<le> fromRate / toRate"
    by (simp add: pow2_def field_simps)
  have b: "0 \<le> idx \<and> idx < real (length audioData)"
    unfolding idx_def by (rule rounded_index_bounds [OF L n s i])
  have lo: "0 \<le> \<lfloor>idx\<rfloor>" using b by simp
  have "\<lfloor>idx\<rfloor> < int (length audioData)" using b by (simp add: floor_less_iff)
  then have hi: "\<lfloor>idx\<rfloor> \<le> int (length audioData) - 1" by simp
  have c: "0 \<le> min (\<lfloor>idx\<rfloor> + 1) (int (length audioData) - 1)"
    "min (\<lfloor>idx\<rfloor> + 1) (int (length audioData) - 1) \<le> int (length audioData) - 1"
    using lo L by simp_all
  have g: "\<And>k. 0 \<le> k \<Longrightarrow> k \<le> int (length audioData) - 1
             \<Longrightarrow> aget audioData k = audioData ! nat k"
    by (simp add: aget_def)
  show ?thesis
    unfolding idx_def [symmetric] using lo hi c g [OF lo hi] g [OF c] by blast
qed

section \<open>Trimming and the removal of the blank-audio token\<close>

lemma canonicalize_ws: "isWhiteSpace w \<Longrightarrow> canonicalize w = w"
  unfolding isWhiteSpace_def canonicalize_def
  by (auto simp: word_le_nat_alt)

lemma ws_not_bracket: "isWhiteSpace w \<Longrightarrow> w \<noteq> 0x5B"
  unfolding isWhiteSpace_def
  by (auto simp: word_le_nat_alt)

lemma BLANK_AUDIO_eq:
  "BLANK_AUDIO = [0x5B, 0x42, 0x4C, 0x41, 0x4E, 0x4B, 0x5F, 0x41, 0x55, 0x44, 0x49, 0x4F, 0x5D]"
  by (simp add: BLANK_AUDIO_def lit_def)

lemma canon_token: "p \<in> set BLANK_AUDIO \<Longrightarrow> canonicalize p = p \<and> \<not> isWhiteSpace p"
  unfolding BLANK_AUDIO_eq canonicalize_def isWhiteSpace_def
  by (auto simp: word_le_nat_alt)

lemma ws_not_token:
  "isWhiteSpace w \<Longrightarrow> p \<in> set BLANK_AUDIO \<Longrightarrow> canonicalize w \<noteq> canonicalize p"
  using canonicalize_ws [of w] canon_token [of p] by auto

lemma matchesAt_length: "matchesAt P u \<Longrightarrow> length P \<le> length u"
  by (induction P u rule: matchesAt.induct) auto

lemma matchesAt_append_ws:
  "list_all isWhiteSpace ws \<Longrightarrow> (\<forall>p \<in> set P. \<forall>w. isWhiteSpace w \<longrightarrow> canonicalize w \<noteq> canonicalize p)
   \<Longrightarrow> matchesAt P (u @ ws) = matchesAt P u"
proof (induction P u rule: matchesAt.induct)
  case (1 s)
  then show ?case by simp
next
  case (2 p ps)
  then show ?case by (cases ws) auto
next
  case (3 p ps c cs)
  then show ?case by simp
qed

lemma token_append_ws:
  "list_all isWhiteSpace ws \<Longrightarrow> matchesAt BLANK_AUDIO (u @ ws) = matchesAt BLANK_AUDIO u"
  by (rule matchesAt_append_ws) (auto dest: ws_not_token)

lemma removeBlankAudio_ws: "list_all isWhiteSpace ws \<Longrightarrow> removeBlankAudio (ws @ u) = ws @ removeBlankAudio u"
proof (induction ws)
  case Nil
  then show ?case by simp
next
  case (Cons w ws)
  have "isWhiteSpace w" using Cons.prems by simp
  then have "canonicalize w \<noteq> canonicalize 0x5B"
    using ws_not_token [of w "0x5B"] by (simp add: BLANK_AUDIO_eq)
  then have "\<not> matchesAt BLANK_AUDIO (w # (ws @ u))"
    by (simp add: BLANK_AUDIO_eq)
  then show ?case using Cons by simp
qed

lemma removeBlankAudio_append_ws:
  "list_all isWhiteSpace ws \<Longrightarrow> removeBlankAudio (u @ ws) = removeBlankAudio u @ ws"
proof (induction u rule: removeBlankAudio.induct)
  case 1
  then show ?case using removeBlankAudio_ws [of ws "[]"] by simp
next
  case (2 c cs)
  show ?case
  proof (cases "matchesAt BLANK_AUDIO (c # cs)")
    case True
    then have m: "matchesAt BLANK_AUDIO ((c # cs) @ ws)"
      using token_append_ws [OF "2.prems", of "c # cs"] by simp
    have len: "length BLANK_AUDIO \<le> length (c # cs)"
      using True by (rule matchesAt_length)
    have "removeBlankAudio ((c # cs) @ ws)
            = removeBlankAudio (drop (length BLANK_AUDIO) ((c # cs) @ ws))"
      using m by simp
    also have "\<dots> = removeBlankAudio (drop (length BLANK_AUDIO) (c # cs) @ ws)"
      using len by (simp only: drop_append) simp
    also have "\<dots> = removeBlankAudio (drop (length BLANK_AUDIO) (c # cs)) @ ws"
      using "2.IH"(1) [OF True "2.prems"] .
    also have "\<dots> = removeBlankAudio (c # cs) @ ws"
      using True by simp
    finally show ?thesis .
  next
    case False
    then have m: "\<not> matchesAt BLANK_AUDIO ((c # cs) @ ws)"
      using token_append_ws [OF "2.prems", of "c # cs"] by simp
    show ?thesis using False m "2.IH"(2) [OF False "2.prems"] by simp
  qed
qed

lemma trimStart_ws: "list_all isWhiteSpace ws \<Longrightarrow> trimStart (ws @ u) = trimStart u"
  by (simp add: trimStart_def list_all_iff)

lemma trimEnd_ws: "list_all isWhiteSpace ws \<Longrightarrow> trimEnd (u @ ws) = trimEnd u"
  using dropWhile_append2 [of "rev ws" isWhiteSpace "rev u"]
  by (auto simp: trimEnd_def list_all_iff)

lemma trimEnd_all_ws: "list_all isWhiteSpace ws \<Longrightarrow> trimEnd ws = []"
  by (simp add: trimEnd_def list_all_iff)

lemma trim_ws: 
  assumes "list_all isWhiteSpace ws1" "list_all isWhiteSpace ws2"
  shows "trim (ws1 @ x @ ws2) = trim x"
proof -
  have a: "trim (ws1 @ x @ ws2) = trimEnd (trimStart (x @ ws2))"
    using assms by (simp add: trim_def trimStart_ws)
  show ?thesis
  proof (cases "list_all isWhiteSpace x")
    case True
    then have "trimStart (x @ ws2) = []" "trimStart x = []"
      using assms by (simp_all add: trimStart_def list_all_iff)
    then show ?thesis using a by (simp add: trim_def)
  next
    case False
    then obtain c where "c \<in> set x" "\<not> isWhiteSpace c" by (auto simp: list_all_iff)
    then have "trimStart (x @ ws2) = trimStart x @ ws2"
      by (simp add: trimStart_def dropWhile_append1)
    then show ?thesis using a assms by (simp add: trim_def trimEnd_ws)
  qed
qed

lemma trim_decompose:
  "\<exists>ws1 ws2. list_all isWhiteSpace ws1 \<and> list_all isWhiteSpace ws2 \<and> t = ws1 @ trim t @ ws2"
proof -
  define y where "y = dropWhile isWhiteSpace t"
  have 1: "t = takeWhile isWhiteSpace t @ y" by (simp add: y_def)
  have "rev (takeWhile isWhiteSpace (rev y) @ dropWhile isWhiteSpace (rev y)) = y"
    by (simp only: takeWhile_dropWhile_id rev_rev_ident)
  then have 2: "y = trimEnd y @ rev (takeWhile isWhiteSpace (rev y))"
    by (simp only: rev_append trimEnd_def)
  have 3: "trim t = trimEnd y" by (simp add: trim_def trimStart_def y_def)
  have w1: "list_all isWhiteSpace (takeWhile isWhiteSpace t)"
    by (auto simp: list_all_iff dest: set_takeWhileD)
  have w2: "list_all isWhiteSpace (rev (takeWhile isWhiteSpace (rev y)))"
    by (auto simp: list_all_iff dest: set_takeWhileD)
  have "t = takeWhile isWhiteSpace t @ trim t @ rev (takeWhile isWhiteSpace (rev y))"
    using 1 2 3 by simp
  then show ?thesis using w1 w2 by blast
qed

lemma trim_removeBlankAudio_trim:
  "trim (removeBlankAudio (trim t)) = trim (removeBlankAudio t)"
proof -
  obtain ws1 ws2 where w: "list_all isWhiteSpace ws1" "list_all isWhiteSpace ws2"
    and t: "t = ws1 @ trim t @ ws2"
    using trim_decompose by blast
  have "removeBlankAudio t = removeBlankAudio (ws1 @ (trim t @ ws2))" using t by simp
  also have "\<dots> = ws1 @ removeBlankAudio (trim t @ ws2)"
    using w(1) by (rule removeBlankAudio_ws)
  also have "\<dots> = ws1 @ removeBlankAudio (trim t) @ ws2"
    using w(2) by (simp add: removeBlankAudio_append_ws)
  finally have "trim (removeBlankAudio t) = trim (ws1 @ removeBlankAudio (trim t) @ ws2)"
    by simp
  then show ?thesis using w by (simp add: trim_ws)
qed

section \<open>What a suspended call of processAudio does\<close>

lemma resume_settled:
  assumes "k < length (tasks s)"
    and "continueTask (chunksToProcess (tasks s ! k)) (awaiting (tasks s ! k)) out s
           = Some (settle (chunksToProcess (tasks s ! k)) s0, None)"
    and "tasks s0 = tasks s" and "trace s0 = trace s @ pre"
  shows "\<not> isProcessingRef (resume k out s)
       \<and> error (resume k out s) = error s0
       \<and> transcript (resume k out s) = transcript s0
       \<and> stream (resume k out s) = stream s0
       \<and> isListening (resume k out s) = isListening s0
       \<and> tasks (resume k out s) = take k (tasks s) @ drop (Suc k) (tasks s)
       \<and> (trace (resume k out s) = trace s @ pre @ [Settled (chunksToProcess (tasks s ! k))]
          \<or> trace (resume k out s)
               = trace s @ pre @ [Settled (chunksToProcess (tasks s ! k)), RecorderStart])
       \<and> (calledBy (tasks s ! k) = ProcessAudioAndContinue \<and> stream s0 = Some True
            \<and> mediaRecorder s0 = Some inactive
          \<longrightarrow> mediaRecorder (resume k out s) = Some recording
              \<and> audioChunks (resume k out s) = [])"
  using assms
  by (simp add: resume_def settle_def emit_def restartRecording_def Let_def)

text \<open>
  Claim C5. When the decoded buffer has fewer than 8000 samples, the suspended call of
  processAudio returns: the transcriber is not called (the trace grows by the settling,
  and by the restart of the recorder when the caller restarts it), the error and the
  transcript are unchanged, and the busy flag is cleared.
\<close>

theorem short_buffer_dropped:
  assumes "k < length (tasks s)" and "awaiting (tasks s ! k) = AwaitDecode"
    and "length (channelData buffer) < 8000"
  shows "error (resume k (DecodeResolved buffer) s) = error s
       \<and> transcript (resume k (DecodeResolved buffer) s) = transcript s
       \<and> \<not> isProcessingRef (resume k (DecodeResolved buffer) s)
       \<and> tasks (resume k (DecodeResolved buffer) s) = take k (tasks s) @ drop (Suc k) (tasks s)
       \<and> (trace (resume k (DecodeResolved buffer) s)
            = trace s @ [Settled (chunksToProcess (tasks s ! k))]
          \<or> trace (resume k (DecodeResolved buffer) s)
            = trace s @ [Settled (chunksToProcess (tasks s ! k)), RecorderStart])"
proof -
  have "continueTask (chunksToProcess (tasks s ! k)) (awaiting (tasks s ! k))
          (DecodeResolved buffer) s = Some (settle (chunksToProcess (tasks s ! k)) s, None)"
    using assms by (simp add: afterDecode_def)
  from resume_settled [OF assms(1) this, of "[]"] show ?thesis by simp
qed

theorem short_buffer_dropped_witness:
  "trace (resume 0 (DecodeResolved \<lparr>sampleRate = 16000, channelData = [Num 1, Num 1]\<rparr>)
     ((init (lit ''So'') 0)\<lparr>isProcessingRef := True, isProcessing := True,
          mediaRecorder := Some inactive,
          tasks := [Task [[1]] AwaitDecode ProcessAudioAndContinue]\<rparr>))
   = [Settled [[1]], RecorderStart]"
  using short_buffer_dropped [of 0
     "(init (lit ''So'') 0)\<lparr>isProcessingRef := True, isProcessing := True,
          mediaRecorder := Some inactive,
          tasks := [Task [[1]] AwaitDecode ProcessAudioAndContinue]\<rparr>"
     "\<lparr>sampleRate = 16000, channelData = [Num 1, Num 1]\<rparr>"]
  by (simp add: init_def resume_def afterDecode_def settle_def emit_def restartRecording_def)

text \<open>
  Claim C7. When decoding fails, the suspended call of processAudio logs a warning and
  returns: the error and the transcript are unchanged, the busy flag is cleared, and the
  session goes on (the stream and the listening state are untouched, and a call made by
  processAudioAndContinue restarts the stopped recorder of an active stream).
\<close>

theorem decode_failure_swallowed:
  assumes "k < length (tasks s)" and "awaiting (tasks s ! k) = AwaitDecode"
  shows "error (resume k (Rejected decodeError) s) = error s
       \<and> transcript (resume k (Rejected decodeError) s) = transcript s
       \<and> \<not> isProcessingRef (resume k (Rejected decodeError) s)
       \<and> tasks (resume k (Rejected decodeError) s) = take k (tasks s) @ drop (Suc k) (tasks s)
       \<and> (trace (resume k (Rejected decodeError) s)
            = trace s @ [ConsoleWarn, Settled (chunksToProcess (tasks s ! k))]
          \<or> trace (resume k (Rejected decodeError) s)
            = trace s @ [ConsoleWarn, Settled (chunksToProcess (tasks s ! k)), RecorderStart])
       \<and> stream (resume k (Rejected decodeError) s) = stream s
       \<and> isListening (resume k (Rejected decodeError) s) = isListening s
       \<and> (calledBy (tasks s ! k) = ProcessAudioAndContinue \<and> stream s = Some True
            \<and> mediaRecorder s = Some inactive
          \<longrightarrow> mediaRecorder (resume k (Rejected decodeError) s) = Some recording
              \<and> audioChunks (resume k (Rejected decodeError) s) = [])"
proof -
  have "continueTask (chunksToProcess (tasks s ! k)) (awaiting (tasks s ! k))
          (Rejected decodeError) s
        = Some (settle (chunksToProcess (tasks s ! k)) (emit ConsoleWarn s), None)"
    using assms by simp
  from resume_settled [OF assms(1) this, of "[ConsoleWarn]"] show ?thesis
    by (simp add: emit_def)
qed

theorem decode_failure_swallowed_witness:
  "trace (resume 0 (Rejected (Exn (Some (lit ''Unable to decode audio data''))))
     ((init (lit ''So'') 0)\<lparr>isProcessingRef := True, isProcessing := True,
          mediaRecorder := Some inactive,
          tasks := [Task [[1]] AwaitDecode ProcessAudioAndContinue]\<rparr>))
   = [ConsoleWarn, Settled [[1]], RecorderStart]
   \<and> mediaRecorder (resume 0 (Rejected (Exn (Some (lit ''Unable to decode audio data''))))
     ((init (lit ''So'') 0)\<lparr>isProcessingRef := True, isProcessing := True,
          mediaRecorder := Some inactive,
          tasks := [Task [[1]] AwaitDecode ProcessAudioAndContinue]\<rparr>))
   = Some recording"
  using decode_failure_swallowed [of 0
     "(init (lit ''So'') 0)\<lparr>isProcessingRef := True, isProcessing := True,
          mediaRecorder := Some inactive,
          tasks := [Task [[1]] AwaitDecode ProcessAudioAndContinue]\<rparr>"
     "Exn (Some (lit ''Unable to decode audio data''))"]
  by (simp add: init_def resume_def settle_def emit_def restartRecording_def)

lemma onlySpecial_iff:
  "onlySpecial s \<longleftrightarrow> set s \<subseteq> {c. isWhiteSpace c} \<union> {0x5B, 0x5D, 0x28, 0x29}"
  by (auto simp: onlySpecial_def list_all_iff)

text \<open>
  Claim C8. When the transcriber returns a text, every match of \<^verbatim>\<open>[BLANK_AUDIO]\<close>
  (whatever the case of its letters) is removed and the rest is trimmed; the result is
  appended to the transcript, after a single space when the transcript is not empty, if
  and only if it is not empty and not made of white space, square brackets and
  parentheses alone. Otherwise the transcript is unchanged.
\<close>

theorem transcribed_text_appended:
  assumes "k < length (tasks s)" and "awaiting (tasks s ! k) = AwaitTranscribe"
  shows "transcript (resume k (TranscribeResolved (Some text)) s) =
     (let cleaned = trim (removeBlankAudio text) in
      if cleaned \<noteq> [] \<and> \<not> set cleaned \<subseteq> {c. isWhiteSpace c} \<union> {0x5B, 0x5D, 0x28, 0x29}
      then transcript s @ (if transcript s = [] then [] else [0x20]) @ cleaned
      else transcript s)"
proof -
  have e: "trim (removeBlankAudio []) = []"
    by (simp add: trim_def trimStart_def trimEnd_def)
  have t: "transcript (afterTranscribe c (Some text) s) =
     (let cleaned = trim (removeBlankAudio text) in
      if cleaned \<noteq> [] \<and> \<not> set cleaned \<subseteq> {c. isWhiteSpace c} \<union> {0x5B, 0x5D, 0x28, 0x29}
      then transcript s @ (if transcript s = [] then [] else [0x20]) @ cleaned
      else transcript s)" for c
    using e
    by (simp add: afterTranscribe_def Let_def settle_def emit_def trim_removeBlankAudio_trim
        onlySpecial_iff lit_def)
  have r: "transcript (restartRecording s') = transcript s'" for s'
    by (simp add: restartRecording_def Let_def emit_def)
  show ?thesis using assms t [of "chunksToProcess (tasks s ! k)"]
    by (simp add: resume_def Let_def r)
qed

theorem transcribed_text_appended_witness:
  "transcript (resume 0 (TranscribeResolved (Some (lit '' Hello [blank_audio] '')))
     ((init (lit ''So'') 0)\<lparr>isProcessingRef := True, isProcessing := True,
          mediaRecorder := Some inactive,
          tasks := [Task [[1]] AwaitTranscribe ProcessAudioAndContinue]\<rparr>))
   = lit ''So Hello''"
  using transcribed_text_appended [of 0 "(init (lit ''So'') 0)\<lparr>isProcessingRef := True, isProcessing := True,
          mediaRecorder := Some inactive,
          tasks := [Task [[1]] AwaitTranscribe ProcessAudioAndContinue]\<rparr>" "lit '' Hello [blank_audio] ''"]
  by (simp add: init_def lit_def BLANK_AUDIO_def trim_def trimStart_def trimEnd_def
      isWhiteSpace_def canonicalize_def)

section \<open>The energy gate\<close>

text \<open>
  Claim C6, as amended. When the root mean square of the decoded buffer, as line 352
  computes it (the binary64 sum of the rounded squares, divided by the length, and its
  square root, each rounded), is below 0.005, or just not above the binary64 value of the
  literal \<^verbatim>\<open>0.005\<close>, the suspended call of processAudio returns: the transcriber is not
  called, the error and the transcript are unchanged, and the busy flag is cleared.
\<close>

theorem computed_quiet_buffer_dropped:
  assumes "k < length (tasks s)" and "awaiting (tasks s ! k) = AwaitDecode"
    and "rootMean (sumSquares (channelData buffer)) (length (channelData buffer)) = Num rms"
    and "rms < 0.005 \<or> rms \<le> fl 0.005"
  shows "error (resume k (DecodeResolved buffer) s) = error s
       \<and> transcript (resume k (DecodeResolved buffer) s) = transcript s
       \<and> \<not> isProcessingRef (resume k (DecodeResolved buffer) s)
       \<and> tasks (resume k (DecodeResolved buffer) s) = take k (tasks s) @ drop (Suc k) (tasks s)
       \<and> (trace (resume k (DecodeResolved buffer) s)
            = trace s @ [Settled (chunksToProcess (tasks s ! k))]
          \<or> trace (resume k (DecodeResolved buffer) s)
            = trace s @ [Settled (chunksToProcess (tasks s ! k)), RecorderStart])"
proof -
  have "(1 / 200 :: real) < fl (1 / 200)"
    by (simp add: fl_half_percent pow2_def)
  then have "rms \<le> fl (1 / 200)" using assms(4) by auto
  then have "\<not> hasAudioContent (channelData buffer) (fl (1 / 200))"
    using assms(3) by (simp add: hasAudioContent_def)
  then have "continueTask (chunksToProcess (tasks s ! k)) (awaiting (tasks s ! k))
          (DecodeResolved buffer) s = Some (settle (chunksToProcess (tasks s ! k)) s, None)"
    using assms(2) by (simp add: afterDecode_def Let_def)
  from resume_settled [OF assms(1) this, of "[]"] show ?thesis by simp
qed

lemma sumSquares_quiet:
  "sumSquares (replicate 8000 (Num (1 / 1024))) = Num (8000 / 1048576)"
proof -
  have c: "(1 / 1024 :: real) * (1 / 1024) = 1 / 1048576" by simp
  have r: "(1 / 1048576 :: real) = real_of_int 1 * pow2 (- 20)" by (simp add: pow2_def)
  have b: "(0 + int 8000) * 1 < (2 ^ 53 :: int)" by simp
  have "foldl (\<lambda>acc y. add64 acc (mul64 y y)) (Num (real_of_int 0 * (1 / 1048576)))
          (replicate 8000 (Num (1 / 1024)))
        = Num (real_of_int (0 + int 8000) * (1 / 1048576))"
    by (rule sum_exact_steps [OF c r _ _ _ b]) simp_all
  moreover have "real_of_int (0 + int 8000) * (1 / 1048576) = (8000 / 1048576 :: real)"
    by simp
  ultimately show ?thesis
    unfolding sumSquares_def by (simp only: of_int_0 mult_zero_left)
qed

lemma rootMean_quiet:
  "rootMean (sumSquares (replicate 8000 (Num (1 / 1024))))
     (length (replicate 8000 (Num (1 / 1024::real)))) = Num (1 / 1024)"
proof -
  have m: "fl (1 / 1048576) = 1 / 1048576"
    using fl_exact [of "1 / 1048576" 1 "- 20"] by (simp add: pow2_def)
  have q: "sqrt (1 / 1048576) = 1 / 1024"
    by (rule real_sqrt_unique) (simp_all add: power2_eq_square)
  have r: "fl (1 / 1024) = 1 / 1024"
    using fl_exact [of "1 / 1024" 1 "- 10"] by (simp add: pow2_def)
  have "rootMean (Num (8000 / 1048576)) 8000 = Num (1 / 1024)"
    by (simp add: m q r)
  then show ?thesis by (simp only: sumSquares_quiet length_replicate)
qed

theorem computed_quiet_buffer_dropped_witness:
  "error (resume 0
     (DecodeResolved \<lparr>sampleRate = 16000, channelData = replicate 8000 (Num (1 / 1024))\<rparr>)
     ((init (lit ''So'') 0)\<lparr>isProcessingRef := True, isProcessing := True,
          mediaRecorder := Some inactive,
          tasks := [Task [[1]] AwaitDecode StopListening]\<rparr>)) = None
   \<and> transcript (resume 0
     (DecodeResolved \<lparr>sampleRate = 16000, channelData = replicate 8000 (Num (1 / 1024))\<rparr>)
     ((init (lit ''So'') 0)\<lparr>isProcessingRef := True, isProcessing := True,
          mediaRecorder := Some inactive,
          tasks := [Task [[1]] AwaitDecode StopListening]\<rparr>)) = lit ''So''
   \<and> tasks (resume 0
     (DecodeResolved \<lparr>sampleRate = 16000, channelData = replicate 8000 (Num (1 / 1024))\<rparr>)
     ((init (lit ''So'') 0)\<lparr>isProcessingRef := True, isProcessing := True,
          mediaRecorder := Some inactive,
          tasks := [Task [[1]] AwaitDecode StopListening]\<rparr>)) = []"
proof -
  have h: "rootMean (sumSquares (channelData
               \<lparr>sampleRate = 16000, channelData = replicate 8000 (Num (1 / 1024))\<rparr>))
             (length (channelData
               \<lparr>sampleRate = 16000, channelData = replicate 8000 (Num (1 / 1024))\<rparr>))
           = Num (1 / 1024)"
    using rootMean_quiet by simp
  have l: "(1 / 1024 :: real) < 0.005 \<or> (1 / 1024 :: real) \<le> fl 0.005" by simp
  show ?thesis
    using computed_quiet_buffer_dropped [of 0
       "(init (lit ''So'') 0)\<lparr>isProcessingRef := True, isProcessing := True,
            mediaRecorder := Some inactive,
            tasks := [Task [[1]] AwaitDecode StopListening]\<rparr>"
       "\<lparr>sampleRate = 16000, channelData = replicate 8000 (Num (1 / 1024))\<rparr>"
       "1 / 1024", OF _ _ h l]
    by (simp add: init_def)
qed

lemma quiet_head:
  "foldl (\<lambda>acc y. add64 acc (mul64 y y)) (Num 0)
     [Num (7502999 / 2 ^ 24), Num (9288 / 2 ^ 27), Num (105 / 2 ^ 27)]
   = Num (real_of_int 7205759403788066 * pow2 (- 3 - 52))"
proof -
  have e1: "fl (56294993994001 / 281474976710656) = 56294993994001 / 281474976710656"
    using fl_exact [of "56294993994001 / 281474976710656" 56294993994001 "- 48"]
    by (simp add: pow2_def)
  have e2: "fl (1347921 / 281474976710656) = 1347921 / 281474976710656"
    using fl_exact [of "1347921 / 281474976710656" 1347921 "- 48"] by (simp add: pow2_def)
  have e3: "fl (28147497670961 / 140737488355328) = 28147497670961 / 140737488355328"
    using fl_exact [of "28147497670961 / 140737488355328" 28147497670961 "- 47"]
    by (simp add: pow2_def)
  have e4: "fl (11025 / 18014398509481984) = 11025 / 18014398509481984"
    using fl_exact [of "11025 / 18014398509481984" 11025 "- 54"] by (simp add: pow2_def)
  have e5: "fl (3602879701894033 / 18014398509481984) = 3602879701894033 / 18014398509481984"
    using fl_exact [of "3602879701894033 / 18014398509481984" 3602879701894033 "- 54"]
    by (simp add: pow2_def)
  show ?thesis by (simp add: e1 e2 e3 e4 e5 pow2_def)
qed

lemma quiet_tail:
  "foldl (\<lambda>acc y. add64 acc (mul64 y y)) (Num (real_of_int 7205759403788066 * pow2 (- 3 - 52)))
     (replicate 7997 (Num (8388609 / 2 ^ 51)))
   = Num (real_of_int (7205759403788066 + int 7997) * pow2 (- 3 - 52))"
proof (rule round_up_steps)
  show "fl (8388609 / 2 ^ 51 * (8388609 / 2 ^ 51))
          = 70368760954881 / 5070602400912917605986812821504"
    using fl_exact [of "70368760954881 / 5070602400912917605986812821504" 70368760954881 "- 102"]
    by (simp add: pow2_def)
  show "pow2 (- 3 - 52) = pow2 (- 3 - 52)" by simp
  show "- 1022 \<le> (- 3 :: int)" by simp
  show "pow2 (- 3 - 52) / 2 < 70368760954881 / 5070602400912917605986812821504"
    by (simp add: pow2_def)
  show "70368760954881 / 5070602400912917605986812821504 < pow2 (- 3 - 52)"
    by (simp add: pow2_def)
  show "(2 ^ 52 :: int) \<le> 7205759403788066" by simp
  show "7205759403788066 + int 7997 \<le> (2 ^ 53 :: int)" by simp
qed

lemma sumSquares_quietSamples:
  "sumSquares (map Num quietSamples) = Num (7205759403796063 * pow2 (- 55))"
proof -
  have "sumSquares (map Num quietSamples)
          = foldl (\<lambda>acc y. add64 acc (mul64 y y))
              (foldl (\<lambda>acc y. add64 acc (mul64 y y)) (Num 0)
                 [Num (7502999 / 2 ^ 24), Num (9288 / 2 ^ 27), Num (105 / 2 ^ 27)])
              (replicate 7997 (Num (8388609 / 2 ^ 51)))"
    by (simp only: sumSquares_def quietSamples_def map_append foldl_append map_replicate
        list.map)
  also have "\<dots> = Num (real_of_int (7205759403788066 + int 7997) * pow2 (- 3 - 52))"
    by (simp only: quiet_head quiet_tail)
  also have "real_of_int (7205759403788066 + int 7997) * pow2 (- 3 - 52)
               = 7205759403796063 * pow2 (- 55)"
    by simp
  finally show ?thesis .
qed

lemma rootMean_quietSamples:
  "rootMean (Num (7205759403796063 * pow2 (- 55))) 8000
     = Num (5764607523035543 * pow2 (- 60))"
proof -
  define M :: real where "M = 7378697629487169 * pow2 (- 68)"
  define R :: real where "R = 5764607523035543 * pow2 (- 60)"
  have m: "fl (7205759403796063 * pow2 (- 55) / 8000) = M"
    unfolding M_def
    using fl_nearest [of "- 16" "7205759403796063 * pow2 (- 55) / 8000" 7378697629487169]
    by (simp add: pow2_def)
  have lo: "R - pow2 (- 60) / 2 < sqrt M"
    by (rule real_less_rsqrt) (simp add: R_def M_def pow2_def power2_eq_square)
  have hi: "sqrt M < R + pow2 (- 60) / 2"
    by (rule real_less_lsqrt) (simp_all add: R_def M_def pow2_def power2_eq_square)
  have b1: "pow2 (- 8) \<le> sqrt M" using lo by (simp add: R_def pow2_def)
  have b2: "sqrt M < pow2 (- 8 + 1)" using hi by (simp add: R_def pow2_def)
  have n: "\<bar>sqrt M - real_of_int 5764607523035543 * pow2 (- 8 - 52)\<bar> < pow2 (- 8 - 52) / 2"
    using lo hi by (simp add: R_def abs_if)
  have r: "fl (sqrt M) = R"
    using fl_nearest [of "- 8" "sqrt M" 5764607523035543, OF _ b1 b2 n]
    by (simp add: R_def)
  show ?thesis using m r by (simp add: R_def)
qed

lemma hasAudioContent_quietSamples:
  "hasAudioContent (map Num quietSamples) (fl (1 / 200))"
proof -
  have l: "length (map Num quietSamples) = 8000"
    by (simp add: quietSamples_def)
  have "ngreater (Num (5764607523035543 * pow2 (- 60))) (fl (1 / 200))"
    by (simp add: fl_half_percent pow2_def)
  then show ?thesis
    unfolding hasAudioContent_def Let_def
    by (simp only: sumSquares_quietSamples l rootMean_quietSamples)
qed


lemma length_quietSamples: "length quietSamples = 8000"
  by (simp add: quietSamples_def)

lemma exactRms_quietSamples: "exactRms quietSamples < 0.005"
proof -
  have "sum_list (map (\<lambda>x. x * x) quietSamples)
          = 7502999 / 2 ^ 24 * (7502999 / 2 ^ 24) + 9288 / 2 ^ 27 * (9288 / 2 ^ 27)
            + 105 / 2 ^ 27 * (105 / 2 ^ 27)
            + 7997 * (8388609 / 2 ^ 51 * (8388609 / 2 ^ 51))"
    by (simp add: quietSamples_def sum_list_replicate)
  then have "sum_list (map (\<lambda>x. x * x) quietSamples) / real (length quietSamples)
               < (5 / 1000)\<^sup>2"
    by (simp add: length_quietSamples power2_eq_square)
  then have "sqrt (sum_list (map (\<lambda>x. x * x) quietSamples) / real (length quietSamples))
               < 5 / 1000"
    by (intro real_less_lsqrt) simp_all
  then show ?thesis by (simp add: exactRms_def)
qed

lemma binary32_quietSamples: "list_all isBinary32 quietSamples"
proof -
  have "fround (7502999 / 2 ^ 24) = 7502999 / 2 ^ 24"
    using fround_exact [of "7502999 / 2 ^ 24" 7502999 "- 24"] by (simp add: pow2_def)
  moreover have "fround (9288 / 2 ^ 27) = 9288 / 2 ^ 27"
    using fround_exact [of "9288 / 2 ^ 27" 9288 "- 27"] by (simp add: pow2_def)
  moreover have "fround (105 / 2 ^ 27) = 105 / 2 ^ 27"
    using fround_exact [of "105 / 2 ^ 27" 105 "- 27"] by (simp add: pow2_def)
  moreover have "fround (8388609 / 2 ^ 51) = 8388609 / 2 ^ 51"
    using fround_exact [of "8388609 / 2 ^ 51" 8388609 "- 51"] by (simp add: pow2_def)
  ultimately show ?thesis
    by (simp add: quietSamples_def isBinary32_def list_all_iff)
qed

lemma afterDecode_quietSamples:
  "afterDecode c \<lparr>sampleRate = 16000, channelData = map Num quietSamples\<rparr> s
     = (emit (Transcribe (map Num quietSamples)) s, Some AwaitTranscribe)"
  using hasAudioContent_quietSamples
  by (simp add: afterDecode_def length_quietSamples)

text \<open>
  Claim C6, as stated, fails: the square root of the mean of the squares of
  \<open>quietSamples\<close> is below 0.005, but the rounded sum of line 350 exceeds the exact one
  by some four thousand units in its last place, the root mean square of line 352 is
  above the binary64 value of 0.005, and the transcriber is called.
\<close>

theorem quiet_buffer_transcribed:
  "length quietSamples = 8000
   \<and> list_all isBinary32 quietSamples
   \<and> exactRms quietSamples < 0.005
   \<and> rootMean (sumSquares (map Num quietSamples)) (length (map Num quietSamples))
       = Num (5764607523035543 * pow2 (- 60))
   \<and> fl 0.005 = 5764607523034235 * pow2 (- 60)
   \<and> trace (resume 0
        (DecodeResolved \<lparr>sampleRate = 16000, channelData = map Num quietSamples\<rparr>)
        ((init (lit ''So'') 0)\<lparr>isProcessingRef := True, isProcessing := True,
             mediaRecorder := Some inactive,
             tasks := [Task [[1]] AwaitDecode StopListening]\<rparr>))
       = [Transcribe (map Num quietSamples)]"
proof -
  have r: "rootMean (sumSquares (map Num quietSamples)) (length (map Num quietSamples))
             = Num (5764607523035543 * pow2 (- 60))"
    by (simp only: sumSquares_quietSamples length_map length_quietSamples
        rootMean_quietSamples)
  have d: "fl 0.005 = 5764607523034235 * pow2 (- 60)"
    using fl_half_percent by simp
  have t: "trace (resume 0
        (DecodeResolved \<lparr>sampleRate = 16000, channelData = map Num quietSamples\<rparr>)
        ((init (lit ''So'') 0)\<lparr>isProcessingRef := True, isProcessing := True,
             mediaRecorder := Some inactive,
             tasks := [Task [[1]] AwaitDecode StopListening]\<rparr>))
       = [Transcribe (map Num quietSamples)]"
    by (simp add: resume_def init_def afterDecode_quietSamples emit_def)
  show ?thesis
    using length_quietSamples binary32_quietSamples exactRms_quietSamples r d t by blast
qed

section \<open>The invariant of a session\<close>

lemma phase_upd [simp]:
  "phase (s\<lparr>trace := trace s @ [a]\<rparr>) = monitor (phase s) a"
  "phase (isListening_update f1 s) = phase s"
  "phase (transcript_update f2 s) = phase s"
  "phase (isProcessing_update f3 s) = phase s"
  "phase (error_update f4 s) = phase s"
  "phase (mediaRecorder_update f5 s) = phase s"
  "phase (audioChunks_update f6 s) = phase s"
  "phase (stream_update f7 s) = phase s"
  "phase (transcriber_update f8 s) = phase s"
  "phase (isProcessingRef_update f9 s) = phase s"
  "phase (analyser_update f10 s) = phase s"
  "phase (audioContext_update f11 s) = phase s"
  "phase (silenceTimer_update f12 s) = phase s"
  "phase (lastSpeechTime_update f13 s) = phase s"
  "phase (hasRecordedSpeech_update f14 s) = phase s"
  "phase (now_update f15 s) = phase s"
  "phase (stopEvents_update f16 s) = phase s"
  "phase (frameRequested_update f17 s) = phase s"
  "phase (tasks_update f18 s) = phase s"
  by (simp_all add: phase_def)

lemma phase_emit [simp]: "phase (emit a s) = monitor (phase s) a"
  by (simp add: emit_def)

lemma emit_fields [simp]:
  "transcriber (emit a s) = transcriber s"
  "tasks (emit a s) = tasks s"
  "isProcessingRef (emit a s) = isProcessingRef s"
  "mediaRecorder (emit a s) = mediaRecorder s"
  "audioChunks (emit a s) = audioChunks s"
  "silenceTimer (emit a s) = silenceTimer s"
  "stream (emit a s) = stream s"
  "now (emit a s) = now s"
  "stopEvents (emit a s) = stopEvents s"
  by (simp_all add: emit_def)

lemma monitor_ignored [simp]:
  "monitor p SetTimeout = p"
  "monitor p ClearTimeout = p"
  "monitor p (RecorderStop ByStopListening) = p"
  "monitor p TracksStop = p"
  "monitor p ContextClose = p"
  "monitor p (SetError m) = p"
  "monitor p ConsoleWarn = p"
  "monitor p ConsoleError = p"
  by (cases p; simp)+

lemma inv_init: "session_inv (init text0 time0)"
  by (simp add: session_inv_def init_def phase_def)

lemma inv_clock: "session_inv s \<Longrightarrow> session_inv (s\<lparr>now := t\<rparr>)"
  by (simp add: session_inv_def)

lemma inv_ondataavailable: "session_inv s \<Longrightarrow> session_inv (ondataavailable d s)"
  by (auto simp: session_inv_def ondataavailable_def)

lemma inv_stopEvents: "session_inv s \<Longrightarrow> session_inv (s\<lparr>stopEvents := n\<rparr>)"
  by (simp add: session_inv_def)

lemma inv_checkAudioLevel: "session_inv s \<Longrightarrow> session_inv (checkAudioLevel d s)"
  by (cases "phase s") (auto simp: session_inv_def checkAudioLevel_def Let_def)

lemma inv_silenceTimeout:
  "session_inv s \<Longrightarrow> silenceTimer s = Some Armed \<Longrightarrow>
   session_inv (silenceTimeout (s\<lparr>silenceTimer := Some Fired\<rparr>))"
  by (cases "phase s") (auto simp: session_inv_def silenceTimeout_def stopRecorder_def)


lemma settle_fields [simp]:
  "transcriber (settle c s) = transcriber s"
  "tasks (settle c s) = tasks s"
  "isProcessingRef (settle c s) = False"
  "mediaRecorder (settle c s) = mediaRecorder s"
  "audioChunks (settle c s) = audioChunks s"
  "silenceTimer (settle c s) = silenceTimer s"
  "stream (settle c s) = stream s"
  "now (settle c s) = now s"
  "phase (settle c s) = monitor (phase s) (Settled c)"
  by (simp_all add: settle_def)

lemma catchHandler_fields [simp]:
  "transcriber (catchHandler c e s) = transcriber s"
  "tasks (catchHandler c e s) = tasks s"
  "isProcessingRef (catchHandler c e s) = False"
  "mediaRecorder (catchHandler c e s) = mediaRecorder s"
  "audioChunks (catchHandler c e s) = audioChunks s"
  "silenceTimer (catchHandler c e s) = silenceTimer s"
  "stream (catchHandler c e s) = stream s"
  "now (catchHandler c e s) = now s"
  "phase (catchHandler c e s) = monitor (phase s) (Settled c)"
  by (simp_all add: catchHandler_def Let_def split: option.splits)

lemma afterTranscribe_fields [simp]:
  "transcriber (afterTranscribe c r s) = transcriber s"
  "tasks (afterTranscribe c r s) = tasks s"
  "isProcessingRef (afterTranscribe c r s) = False"
  "mediaRecorder (afterTranscribe c r s) = mediaRecorder s"
  "audioChunks (afterTranscribe c r s) = audioChunks s"
  "silenceTimer (afterTranscribe c r s) = silenceTimer s"
  "stream (afterTranscribe c r s) = stream s"
  "now (afterTranscribe c r s) = now s"
  by (simp_all add: afterTranscribe_def Let_def split: option.splits)

lemma afterTranscribe_phase:
  "phase s = InFlight c \<Longrightarrow> phase (afterTranscribe c r s) = Idle"
  by (simp add: afterTranscribe_def Let_def split: option.splits)

lemma continueTask_unchanged:
  assumes "continueTask c a out s = Some (s1, r)"
  shows "transcriber s1 = transcriber s \<and> tasks s1 = tasks s
       \<and> mediaRecorder s1 = mediaRecorder s \<and> audioChunks s1 = audioChunks s
       \<and> silenceTimer s1 = silenceTimer s \<and> stream s1 = stream s \<and> now s1 = now s"
  using assms
  by (cases a; cases out)
     (auto simp: afterDecode_def Let_def split: if_splits sum.splits js_error.splits)

lemma continueTask_suspended:
  assumes "continueTask c a out s = Some (s1, Some a')" and "phase s = InFlight c"
  shows "phase s1 = InFlight c \<and> isProcessingRef s1 = isProcessingRef s"
  using assms
  by (cases a; cases out)
     (auto simp: afterDecode_def Let_def split: if_splits sum.splits js_error.splits)

lemma continueTask_settled:
  assumes "continueTask c a out s = Some (s1, None)" and "phase s = InFlight c"
  shows "phase s1 = Idle \<and> \<not> isProcessingRef s1"
  using assms
  by (cases a; cases out)
     (auto simp: afterDecode_def Let_def afterTranscribe_phase
           split: if_splits sum.splits js_error.splits)

lemma inv_restartRecording:
  assumes "session_inv s" and "phase s = Idle" and "silenceTimer s \<noteq> Some Armed"
  shows "session_inv (restartRecording s)"
  using assms by (auto simp: session_inv_def restartRecording_def Let_def)

lemma processAudio_returned:
  assumes "session_inv s" and "silenceTimer s \<noteq> Some Armed" and "\<not> isProcessingRef s"
    and "processAudio k s = (s2, False)"
  shows "session_inv s2 \<and> phase s2 = Idle \<and> silenceTimer s2 = silenceTimer s"
  using assms
  by (cases "phase s")
     (auto simp: session_inv_def processAudio_def Let_def split: if_splits)

lemma processAudio_suspended:
  assumes "session_inv s" and "silenceTimer s \<noteq> Some Armed"
    and "processAudio k s = (s2, True)"
  shows "session_inv s2"
  using assms
  by (cases "phase s")
     (auto simp: session_inv_def processAudio_def Let_def split: if_splits)


lemma inv_clearTimer:
  assumes "session_inv s"
  shows "session_inv (if silenceTimer s \<noteq> None
                      then emit ClearTimeout (s\<lparr>silenceTimer := None\<rparr>) else s)"
  using assms by (auto simp: session_inv_def)

lemma inv_processAudioAndContinue:
  assumes "session_inv s" and "\<not> isProcessingRef s"
  shows "session_inv (processAudioAndContinue s)"
proof -
  define s1 where "s1 = (if silenceTimer s \<noteq> None
                         then emit ClearTimeout (s\<lparr>silenceTimer := None\<rparr>) else s)"
  have i1: "session_inv s1" unfolding s1_def using assms(1) by (rule inv_clearTimer)
  have t1: "silenceTimer s1 \<noteq> Some Armed" by (auto simp: s1_def)
  have f1: "\<not> isProcessingRef s1" using assms(2) by (simp add: s1_def)
  obtain s2 b where p: "processAudio ProcessAudioAndContinue s1 = (s2, b)"
    by (cases "processAudio ProcessAudioAndContinue s1")
  have "processAudioAndContinue s =
          (case processAudio ProcessAudioAndContinue s1 of
             (s2, suspended) \<Rightarrow> if suspended then s2 else restartRecording s2)"
    by (simp only: processAudioAndContinue_def Let_def s1_def)
  then have r: "processAudioAndContinue s = (if b then s2 else restartRecording s2)"
    using p by simp
  show ?thesis
  proof (cases b)
    case True
    then show ?thesis using r processAudio_suspended [OF i1 t1] p by simp
  next
    case False
    then have "session_inv s2 \<and> phase s2 = Idle \<and> silenceTimer s2 = silenceTimer s1"
      using processAudio_returned [OF i1 t1 f1] p by simp
    then show ?thesis using r False t1 by (simp add: inv_restartRecording)
  qed
qed

lemma inv_onstop: "session_inv s \<Longrightarrow> session_inv (onstop s)"
  by (simp add: onstop_def inv_processAudioAndContinue)

lemma inv_released:
  assumes "session_inv s"
  shows "session_inv (s\<lparr>isListening := False\<rparr>)"
    and "session_inv (if mediaRecorder s \<noteq> None \<and> mediaRecorder s \<noteq> Some inactive
                      then stopRecorder ByStopListening s else s)"
    and "session_inv (if stream s \<noteq> None then emit TracksStop (s\<lparr>stream := None\<rparr>) else s)"
    and "session_inv (if audioContext s \<noteq> None \<and> audioContext s \<noteq> Some closed
                      then emit ContextClose (s\<lparr>audioContext := None\<rparr>) else s)"
    and "session_inv (s\<lparr>analyser := False\<rparr>)"
  using assms by (auto simp: session_inv_def stopRecorder_def)

lemma inv_stopListening:
  assumes "session_inv s"
  shows "session_inv (stopListening s)"
proof -
  define s1 where "s1 = s\<lparr>isListening := False\<rparr>"
  define s2 where "s2 = (if silenceTimer s1 \<noteq> None
                then emit ClearTimeout (s1\<lparr>silenceTimer := None\<rparr>) else s1)"
  define s3 where "s3 = (if mediaRecorder s2 \<noteq> None \<and> mediaRecorder s2 \<noteq> Some inactive
                then stopRecorder ByStopListening s2 else s2)"
  define s4 where "s4 = (if stream s3 \<noteq> None
                then emit TracksStop (s3\<lparr>stream := None\<rparr>) else s3)"
  define s5 where "s5 = (if audioContext s4 \<noteq> None \<and> audioContext s4 \<noteq> Some closed
                then emit ContextClose (s4\<lparr>audioContext := None\<rparr>) else s4)"
  define s6 where "s6 = s5\<lparr>analyser := False\<rparr>"
  have i1: "session_inv s1" unfolding s1_def using assms by (rule inv_released)
  have i2: "session_inv s2" unfolding s2_def using i1 by (rule inv_clearTimer)
  have i3: "session_inv s3" unfolding s3_def using i2 by (rule inv_released)
  have i4: "session_inv s4" unfolding s4_def using i3 by (rule inv_released)
  have i5: "session_inv s5" unfolding s5_def using i4 by (rule inv_released)
  have i6: "session_inv s6" unfolding s6_def using i5 by (rule inv_released)
  have t2: "silenceTimer s2 \<noteq> Some Armed" by (auto simp: s2_def)
  have t6: "silenceTimer s6 \<noteq> Some Armed"
    using t2 by (auto simp: s6_def s5_def s4_def s3_def stopRecorder_def)
  have r: "stopListening s = (if audioChunks s6 \<noteq> [] \<and> \<not> isProcessingRef s6
                              then fst (processAudio StopListening s6) else s6)"
    by (simp only: stopListening_def Let_def s6_def s5_def s4_def s3_def s2_def s1_def)
  obtain s7 b where p: "processAudio StopListening s6 = (s7, b)"
    by (cases "processAudio StopListening s6")
  have "\<not> isProcessingRef s6 \<Longrightarrow> session_inv s7"
    using processAudio_suspended [OF i6 t6, of StopListening s7]
          processAudio_returned [OF i6 t6, of StopListening s7] p
    by (cases b) auto
  then show ?thesis using r p i6 by auto
qed

lemma inv_resume:
  assumes "session_inv s"
  shows "session_inv (resume k out s)"
proof (cases "k < length (tasks s)")
  case False
  then show ?thesis using assms by (simp add: resume_def)
next
  case True
  then have ne: "tasks s \<noteq> []" by auto
  then obtain c where ph: "phase s = InFlight c"
    using assms by (cases "phase s") (auto simp: session_inv_def)
  then obtain a kk where ts: "tasks s = [Task c a kk]"
    using assms by (auto simp: session_inv_def)
  then have k0: "k = 0" using True by simp
  have tm: "silenceTimer s \<noteq> Some Armed" using assms ph by (auto simp: session_inv_def)
  show ?thesis
  proof (cases "continueTask c a out s")
    case None
    then show ?thesis using assms ts k0 by (simp add: resume_def)
  next
    case (Some res)
    obtain s1 r where res: "res = (s1, r)" by (cases res)
    note u = continueTask_unchanged [OF Some [unfolded res]]
    show ?thesis
    proof (cases r)
      case None
      have q: "phase s1 = Idle \<and> \<not> isProcessingRef s1"
        using continueTask_settled [of c a out s s1] Some res None ph by simp
      define s2 where "s2 = s1\<lparr>tasks := []\<rparr>"
      have i2: "session_inv s2"
        using assms q u tm by (auto simp: session_inv_def s2_def)
      have p2: "phase s2 = Idle" "silenceTimer s2 \<noteq> Some Armed"
        using q u tm by (simp_all add: s2_def)
      have "resume k out s = (if kk = ProcessAudioAndContinue then restartRecording s2 else s2)"
        using Some res None ts k0 u by (simp add: resume_def s2_def Let_def)
      then show ?thesis using i2 p2 by (simp add: inv_restartRecording)
    next
      case (Some a')
      have q: "phase s1 = InFlight c \<and> isProcessingRef s1 = isProcessingRef s"
        using continueTask_suspended [of c a out s s1 a'] \<open>continueTask c a out s = Some res\<close>
              res Some ph by simp
      have "resume k out s = s1\<lparr>tasks := [Task c a' kk]\<rparr>"
        using \<open>continueTask c a out s = Some res\<close> res Some ts k0 u
        by (simp add: resume_def Let_def)
      then show ?thesis using assms q u ph by (auto simp: session_inv_def)
    qed
  qed
qed

lemma inv_step: "session_inv s \<Longrightarrow> session_inv (step s e)"
  by (cases e)
     (simp_all add: inv_clock inv_checkAudioLevel inv_silenceTimeout inv_ondataavailable
        inv_onstop inv_stopEvents inv_stopListening inv_resume)

lemma inv_foldl: "session_inv s \<Longrightarrow> session_inv (foldl step s evs)"
  by (induction evs arbitrary: s) (simp_all add: inv_step)

lemma inv_run: "session_inv (run (init text0 time0) evs)"
  unfolding run_def by (rule inv_foldl) (rule inv_init)

section \<open>The transcript and the trace\<close>

lemma segments_append: "segments (xs @ ys) = segments xs @ segments ys"
  by (induction xs rule: segments.induct) simp_all

lemma joined_append: "joined t (xs @ ys) = joined (joined t xs) ys"
  by (simp add: joined_def)

lemma joined_Nil [simp]: "joined t [] = t"
  by (simp add: joined_def)

lemma appends_refl [simp]: "appends s s"
  by (simp add: appends_def)

lemma appends_trans: "appends s s1 \<Longrightarrow> appends s1 s2 \<Longrightarrow> appends s s2"
  by (auto simp: appends_def segments_append joined_append)

lemma appends_emit:
  "segments [a] = [] \<Longrightarrow> appends s (emit a s)"
  by (simp add: appends_def emit_def)

lemma appends_fields:
  "trace s' = trace s \<Longrightarrow> transcript s' = transcript s \<Longrightarrow> appends s s'"
  by (simp add: appends_def)

lemma appends_settle: "appends s (settle c s)"
  by (simp add: appends_def settle_def emit_def)

lemma appends_catchHandler: "appends s (catchHandler c e s)"
  by (simp add: appends_def catchHandler_def settle_def emit_def Let_def
      split: option.splits)

lemma appends_afterTranscribe: "appends s (afterTranscribe c r s)"
  by (simp add: appends_def afterTranscribe_def settle_def emit_def Let_def joined_def
      split: option.splits)

lemma appends_afterDecode: "appends s (fst (afterDecode c b s))"
  by (simp add: afterDecode_def Let_def appends_settle appends_catchHandler
      split: sum.splits js_error.splits)
     (simp add: appends_def emit_def)

lemma appends_continueTask:
  assumes "continueTask c a out s = Some (s1, r)"
  shows "appends s s1"
proof -
  have w: "appends s (settle c (emit ConsoleWarn s))"
    by (simp add: appends_def settle_def emit_def)
  have d: "appends s (emit (DecodeAudioData b) s)" for b
    by (simp add: appends_def emit_def)
  have f: "afterDecode c b s = (s1, r) \<Longrightarrow> appends s s1" for b
    using appends_afterDecode [of s c b] by simp
  show ?thesis using assms
    by (cases a; cases out)
       (auto simp: appends_settle appends_catchHandler appends_afterTranscribe w d
          dest: f split: if_splits)
qed

lemma appends_restartRecording: "appends s (restartRecording s)"
  by (simp add: appends_def restartRecording_def Let_def emit_def)

lemma appends_processAudio: "appends s (fst (processAudio k s))"
  by (simp add: appends_def processAudio_def Let_def emit_def settle_def)

lemma appends_processAudioAndContinue: "appends s (processAudioAndContinue s)"
proof -
  define s1 where "s1 = (if silenceTimer s \<noteq> None
                         then emit ClearTimeout (s\<lparr>silenceTimer := None\<rparr>) else s)"
  have a: "appends s s1" by (simp add: s1_def appends_def emit_def)
  have b: "appends s1 (fst (processAudio ProcessAudioAndContinue s1))"
    by (rule appends_processAudio)
  have "processAudioAndContinue s =
          (case processAudio ProcessAudioAndContinue s1 of
             (s2, suspended) \<Rightarrow> if suspended then s2 else restartRecording s2)"
    by (simp only: processAudioAndContinue_def Let_def s1_def)
  then have "processAudioAndContinue s = fst (processAudio ProcessAudioAndContinue s1)
           \<or> processAudioAndContinue s
               = restartRecording (fst (processAudio ProcessAudioAndContinue s1))"
    by (auto split: prod.splits)
  then show ?thesis
    using a b appends_restartRecording [of "fst (processAudio ProcessAudioAndContinue s1)"]
    by (auto intro: appends_trans)
qed

lemma appends_ondataavailable: "appends s (ondataavailable d s)"
  by (simp add: appends_def ondataavailable_def)

lemma appends_onstop: "appends s (onstop s)"
  by (simp add: onstop_def appends_processAudioAndContinue)

lemma appends_stopListening: "appends s (stopListening s)"
proof -
  define s6 where "s6 =
    (let s1 = s\<lparr>isListening := False\<rparr>;
          s2 = (if silenceTimer s1 \<noteq> None
                then emit ClearTimeout (s1\<lparr>silenceTimer := None\<rparr>) else s1);
          s3 = (if mediaRecorder s2 \<noteq> None \<and> mediaRecorder s2 \<noteq> Some inactive
                then stopRecorder ByStopListening s2 else s2);
          s4 = (if stream s3 \<noteq> None
                then emit TracksStop (s3\<lparr>stream := None\<rparr>) else s3);
          s5 = (if audioContext s4 \<noteq> None \<and> audioContext s4 \<noteq> Some closed
                then emit ContextClose (s4\<lparr>audioContext := None\<rparr>) else s4)
      in s5\<lparr>analyser := False\<rparr>)"
  have a: "appends s s6"
    by (simp add: s6_def Let_def appends_def emit_def stopRecorder_def)
  have "stopListening s = (if audioChunks s6 \<noteq> [] \<and> \<not> isProcessingRef s6
                           then fst (processAudio StopListening s6) else s6)"
    by (simp only: stopListening_def s6_def Let_def)
  then show ?thesis
    using a appends_processAudio [of s6 StopListening]
    by (auto intro: appends_trans)
qed

lemma appends_resume: "appends s (resume k out s)"
proof (cases "k < length (tasks s)")
  case False
  then show ?thesis by (simp add: resume_def)
next
  case True
  show ?thesis
  proof (cases "continueTask (chunksToProcess (tasks s ! k)) (awaiting (tasks s ! k)) out s")
    case None
    then show ?thesis using True by (simp add: resume_def)
  next
    case (Some res)
    obtain s1 r where res: "res = (s1, r)" by (cases res)
    have u: "appends s s1" using Some res by (auto dest: appends_continueTask)
    show ?thesis
    proof (cases r)
      case None
      define s2 where "s2 = s1\<lparr>tasks := take k (tasks s1) @ drop (Suc k) (tasks s1)\<rparr>"
      have u2: "appends s s2" using u by (simp add: s2_def appends_def)
      have "resume k out s = s2 \<or> resume k out s = restartRecording s2"
        using True Some res None by (simp add: resume_def Let_def s2_def)
      then show ?thesis using u2 appends_restartRecording [of s2]
        by (auto intro: appends_trans)
    next
      case (Some a')
      then have "resume k out s
                   = s1\<lparr>tasks := (tasks s1)[k := Task (chunksToProcess (tasks s ! k)) a'
                                                   (calledBy (tasks s ! k))]\<rparr>"
        using True \<open>continueTask (chunksToProcess (tasks s ! k)) (awaiting (tasks s ! k)) out s
                     = Some res\<close> res
        by (simp add: resume_def Let_def)
      then show ?thesis using u by (simp add: appends_def)
    qed
  qed
qed

lemma appends_step: "appends s (step s e)"
proof (cases e)
  case (Frame d)
  then show ?thesis by (simp add: appends_def checkAudioLevel_def Let_def emit_def)
next
  case SilenceTimeout
  then show ?thesis by (simp add: appends_def silenceTimeout_def stopRecorder_def emit_def)
next
  case (DataAvailable d)
  then show ?thesis by (simp add: appends_ondataavailable)
next
  case (RecorderStopped d)
  have "appends s (s\<lparr>stopEvents := stopEvents s - 1\<rparr>)" by (simp add: appends_def)
  then have "appends s (onstop (ondataavailable d (s\<lparr>stopEvents := stopEvents s - 1\<rparr>)))"
    using appends_ondataavailable appends_onstop by (blast intro: appends_trans)
  then show ?thesis using RecorderStopped by simp
next
  case StopRequested
  then show ?thesis by (simp add: appends_stopListening)
next
  case (Resume k out)
  then show ?thesis by (simp add: appends_resume)
next
  case (Clock t)
  then show ?thesis by (simp add: appends_def)
qed

lemma appends_foldl: "appends s (foldl step s evs)"
proof (induction evs arbitrary: s)
  case Nil
  then show ?case by simp
next
  case (Cons e evs)
  show ?case using appends_step [of s e] Cons [of "step s e"]
    by (auto intro: appends_trans)
qed

lemma transcript_run:
  "transcript (run (init text0 time0) evs)
     = joined text0 (segments (trace (run (init text0 time0) evs)))"
  using appends_foldl [of "init text0 time0" evs]
  by (simp add: appends_def run_def init_def)

section \<open>Single flight and the order of utterances\<close>

lemma foldl_normalized:
  "foldl (\<lambda>acc d. acc + normalized d * normalized d) a (replicate n v)
     = a + real n * (normalized v * normalized v)"
  by (induction n arbitrary: a) (simp_all add: algebra_simps)

lemma amplitude_replicate:
  "amplitude (replicate bufferLength v) = \<bar>normalized v\<bar> * 255"
proof -
  have "sqrt (real bufferLength * (normalized v * normalized v) / real bufferLength)
          = \<bar>normalized v\<bar>"
    by (simp add: bufferLength_def real_sqrt_mult)
  then show ?thesis by (simp add: amplitude_def Let_def foldl_normalized)
qed

lemma amplitude_loudFrame: "amplitude loudFrame > silenceThreshold"
  by (simp add: loudFrame_def amplitude_replicate normalized_def silenceThreshold_def)

lemma amplitude_silentFrame: "\<not> amplitude silentFrame > silenceThreshold"
  by (simp add: silentFrame_def amplitude_replicate normalized_def silenceThreshold_def)

lemma frame_lengths: "length loudFrame = bufferLength" "length silentFrame = bufferLength"
  by (simp_all add: loudFrame_def silentFrame_def)

text \<open>
  Claim C1. Whatever the events of a session and their order (frames, timer, chunks,
  recorder stops, stop requests, and the settling of awaited promises at any moment), at
  most one call of processAudio is suspended, and one is suspended exactly when the busy
  flag is set. A call of processAudio made while the flag is set returns at once and
  leaves the state, and so the trace of calls, unchanged; a call that reaches its first
  \<^verbatim>\<open>await\<close> has set the flag.
\<close>

theorem single_flight:
  "length (tasks (run (init text0 time0) evs)) \<le> 1
   \<and> (isProcessingRef (run (init text0 time0) evs) \<longleftrightarrow> tasks (run (init text0 time0) evs) \<noteq> [])
   \<and> (isProcessingRef s \<longrightarrow> processAudio k s = (s, False))
   \<and> (snd (processAudio k s) \<longrightarrow>
        isProcessingRef (fst (processAudio k s))
        \<and> tasks (fst (processAudio k s))
            = tasks s @ [Task (audioChunks s) (AwaitArrayBuffer (concat (audioChunks s))) k])"
proof -
  have i: "session_inv (run (init text0 time0) evs)" by (rule inv_run)
  have a: "length (tasks (run (init text0 time0) evs)) \<le> 1
     \<and> (isProcessingRef (run (init text0 time0) evs) \<longleftrightarrow> tasks (run (init text0 time0) evs) \<noteq> [])"
    using i by (cases "phase (run (init text0 time0) evs)") (auto simp: session_inv_def)
  have b: "isProcessingRef s \<longrightarrow> processAudio k s = (s, False)"
    by (simp add: processAudio_def)
  have c: "snd (processAudio k s) \<longrightarrow>
        isProcessingRef (fst (processAudio k s))
        \<and> tasks (fst (processAudio k s))
            = tasks s @ [Task (audioChunks s) (AwaitArrayBuffer (concat (audioChunks s))) k]"
    by (simp add: processAudio_def Let_def emit_def)
  show ?thesis using a b c by blast
qed

lemma sumSquares_tone: "sumSquares (replicate 8000 (Num 1)) = Num 8000"
proof -
  have c: "(1 :: real) * 1 = 1" by simp
  have r: "(1 :: real) = real_of_int 1 * pow2 0" by (simp add: pow2_def)
  have b: "(0 + int 8000) * 1 < (2 ^ 53 :: int)" by simp
  have "foldl (\<lambda>acc y. add64 acc (mul64 y y)) (Num (real_of_int 0 * 1))
          (replicate 8000 (Num 1))
        = Num (real_of_int (0 + int 8000) * 1)"
    by (rule sum_exact_steps [OF c r _ _ _ b]) simp_all
  moreover have "real_of_int (0 + int 8000) * 1 = (8000 :: real)" by simp
  ultimately show ?thesis
    unfolding sumSquares_def by (simp only: of_int_0 mult_zero_left)
qed

lemma hasAudioContent_tone: "hasAudioContent (replicate 8000 (Num 1)) (fl (1 / 200))"
proof -
  have one: "fl 1 = 1" using fl_exact [of 1 1 0] by (simp add: pow2_def)
  have "ngreater (rootMean (Num 8000) 8000) (fl (1 / 200))"
    by (simp add: one fl_half_percent pow2_def)
  then show ?thesis
    unfolding hasAudioContent_def Let_def by (simp only: sumSquares_tone length_replicate)
qed

lemma afterDecode_tone:
  "afterDecode c toneBuffer s = (emit (Transcribe (replicate 8000 (Num 1))) s, Some AwaitTranscribe)"
  using hasAudioContent_tone by (simp add: afterDecode_def toneBuffer_def)

lemmas run_simps =
  run_def init_def checkAudioLevel_def frame_lengths amplitude_loudFrame amplitude_silentFrame
  silenceDuration_def Let_def emit_def ondataavailable_def silenceTimeout_def stopRecorder_def
  onstop_def processAudioAndContinue_def processAudio_def resume_def settle_def
  restartRecording_def stopListening_def

lemma ex_bool [simp]: "(\<exists>x::bool. x) = True"
  by auto

theorem single_flight_witness:
  "processAudio ProcessAudioAndContinue (run (init [] 0) [DataAvailable [1], StopRequested])
     = (run (init [] 0) [DataAvailable [1], StopRequested], False)
   \<and> tasks (fst (processAudio StopListening (run (init [] 0) [DataAvailable [1]])))
     = [Task [[1]] (AwaitArrayBuffer [1]) StopListening]
   \<and> isProcessingRef (fst (processAudio StopListening (run (init [] 0) [DataAvailable [1]])))"
proof -
  have a: "isProcessingRef (run (init [] 0) [DataAvailable [1], StopRequested])"
    by (simp add: run_simps)
  have b: "snd (processAudio StopListening (run (init [] 0) [DataAvailable [1]]))"
    by (simp add: run_simps)
  have c: "tasks (run (init [] 0) [DataAvailable [1]]) = []"
    "audioChunks (run (init [] 0) [DataAvailable [1]]) = [[1]]"
    by (simp_all add: run_simps)
  show ?thesis
    using single_flight [of "[]" 0 "[DataAvailable [1], StopRequested]"
            "run (init [] 0) [DataAvailable [1], StopRequested]" ProcessAudioAndContinue]
          single_flight [of "[]" 0 "[DataAvailable [1]]"
            "run (init [] 0) [DataAvailable [1]]" StopListening]
          a b c
    by simp
qed

text \<open>
  Claim C2. Whatever the events of a session and the latency of each transcription, the
  trace never violates the order that \<open>monitor\<close> checks: while the call that took the
  chunks of one utterance has not settled, no other hand-off is accepted, no boundary
  fires and the recorder is not restarted; the decoder and the transcriber are called, and
  the transcript is extended, only by the call in flight and for its own chunks; and
  between two boundaries the utterance of the first is handed over. So the text of an
  utterance is appended before the chunks of the next are taken, and the utterances are
  taken in the order of their boundaries. The transcript is the initial text followed by
  the appended texts, in the order of the trace.
\<close>

theorem utterances_in_order:
  "foldl monitor Idle (trace (run (init text0 time0) evs)) \<noteq> Violation
   \<and> transcript (run (init text0 time0) evs)
       = joined text0 (segments (trace (run (init text0 time0) evs)))"
  using inv_run [of text0 time0 evs] transcript_run [of text0 time0 evs]
  by (simp add: session_inv_def phase_def)

theorem utterances_in_order_witness:
  "foldl monitor Idle (trace (run (init [] 0)
      [Frame loudFrame, DataAvailable [1], Clock 1500, Frame silentFrame, SilenceTimeout,
       RecorderStopped [2], Resume 0 ArrayBufferResolved, Resume 0 (DecodeResolved toneBuffer),
       Resume 0 (TranscribeResolved (Some (lit ''one''))),
       DataAvailable [3], StopRequested,
       Resume 0 ArrayBufferResolved, Resume 0 (DecodeResolved toneBuffer),
       Resume 0 (TranscribeResolved (Some (lit ''two'')))])) = Idle
   \<and> segments (trace (run (init [] 0)
      [Frame loudFrame, DataAvailable [1], Clock 1500, Frame silentFrame, SilenceTimeout,
       RecorderStopped [2], Resume 0 ArrayBufferResolved, Resume 0 (DecodeResolved toneBuffer),
       Resume 0 (TranscribeResolved (Some (lit ''one''))),
       DataAvailable [3], StopRequested,
       Resume 0 ArrayBufferResolved, Resume 0 (DecodeResolved toneBuffer),
       Resume 0 (TranscribeResolved (Some (lit ''two'')))])) = [lit ''one'', lit ''two'']
   \<and> transcript (run (init [] 0)
      [Frame loudFrame, DataAvailable [1], Clock 1500, Frame silentFrame, SilenceTimeout,
       RecorderStopped [2], Resume 0 ArrayBufferResolved, Resume 0 (DecodeResolved toneBuffer),
       Resume 0 (TranscribeResolved (Some (lit ''one''))),
       DataAvailable [3], StopRequested,
       Resume 0 ArrayBufferResolved, Resume 0 (DecodeResolved toneBuffer),
       Resume 0 (TranscribeResolved (Some (lit ''two'')))]) = lit ''one two''"
  using utterances_in_order [of "[]" 0
      "[Frame loudFrame, DataAvailable [1], Clock 1500, Frame silentFrame, SilenceTimeout,
       RecorderStopped [2], Resume 0 ArrayBufferResolved, Resume 0 (DecodeResolved toneBuffer),
       Resume 0 (TranscribeResolved (Some (lit ''one''))),
       DataAvailable [3], StopRequested,
       Resume 0 ArrayBufferResolved, Resume 0 (DecodeResolved toneBuffer),
       Resume 0 (TranscribeResolved (Some (lit ''two'')))]"]
  by (simp add: run_simps afterDecode_tone
      afterTranscribe_def lit_def trim_def trimStart_def trimEnd_def isWhiteSpace_def
      BLANK_AUDIO_def canonicalize_def onlySpecial_def)

section \<open>The silence detector\<close>

lemma boundaries_simps [simp]:
  "boundaries [] = 0"
  "boundaries (a # tr) = (if a = RecorderStop BySilenceTimer then 1 else 0) + boundaries tr"
  "boundaries (tr @ tr') = boundaries tr + boundaries tr'"
  by (simp_all add: boundaries_def)

lemma vad_untouched_refl [simp]: "vad_untouched s s"
  by (simp add: vad_untouched_def)

lemma vad_untouched_trans:
  "vad_untouched s s1 \<Longrightarrow> vad_untouched s1 s2 \<Longrightarrow> vad_untouched s s2"
  by (simp add: vad_untouched_def)

lemma untouched_settle: "vad_untouched s (settle c s)"
  by (simp add: vad_untouched_def settle_def emit_def)

lemma untouched_catchHandler: "vad_untouched s (catchHandler c e s)"
  by (simp add: vad_untouched_def catchHandler_def settle_def emit_def Let_def
      split: option.splits)

lemma untouched_afterTranscribe: "vad_untouched s (afterTranscribe c r s)"
  by (simp add: vad_untouched_def afterTranscribe_def settle_def emit_def Let_def
      split: option.splits)

lemma untouched_afterDecode: "vad_untouched s (fst (afterDecode c b s))"
  by (simp add: afterDecode_def Let_def untouched_settle untouched_catchHandler
      split: sum.splits js_error.splits)
     (simp add: vad_untouched_def emit_def)

lemma untouched_continueTask:
  assumes "continueTask c a out s = Some (s1, r)"
  shows "vad_untouched s s1"
proof -
  have w: "vad_untouched s (settle c (emit ConsoleWarn s))"
    by (simp add: vad_untouched_def settle_def emit_def)
  have d: "vad_untouched s (emit (DecodeAudioData b) s)" for b
    by (simp add: vad_untouched_def emit_def)
  have f: "afterDecode c b s = (s1, r) \<Longrightarrow> vad_untouched s s1" for b
    using untouched_afterDecode [of s c b] by simp
  show ?thesis using assms
    by (cases a; cases out)
       (auto simp: untouched_settle untouched_catchHandler untouched_afterTranscribe w d
          dest: f split: if_splits)
qed

lemma untouched_restartRecording: "vad_untouched s (restartRecording s)"
  by (simp add: vad_untouched_def restartRecording_def Let_def emit_def)

lemma untouched_processAudio: "vad_untouched s (fst (processAudio k s))"
  by (simp add: vad_untouched_def processAudio_def Let_def emit_def settle_def)

lemma untouched_processAudioAndContinue: "vad_untouched s (processAudioAndContinue s)"
proof -
  define s1 where "s1 = (if silenceTimer s \<noteq> None
                         then emit ClearTimeout (s\<lparr>silenceTimer := None\<rparr>) else s)"
  have a: "vad_untouched s s1" by (simp add: s1_def vad_untouched_def emit_def)
  have b: "vad_untouched s1 (fst (processAudio ProcessAudioAndContinue s1))"
    by (rule untouched_processAudio)
  have "processAudioAndContinue s =
          (case processAudio ProcessAudioAndContinue s1 of
             (s2, suspended) \<Rightarrow> if suspended then s2 else restartRecording s2)"
    by (simp only: processAudioAndContinue_def Let_def s1_def)
  then have "processAudioAndContinue s = fst (processAudio ProcessAudioAndContinue s1)
           \<or> processAudioAndContinue s
               = restartRecording (fst (processAudio ProcessAudioAndContinue s1))"
    by (auto split: prod.splits)
  then show ?thesis
    using a b untouched_restartRecording [of "fst (processAudio ProcessAudioAndContinue s1)"]
    by (auto intro: vad_untouched_trans)
qed

lemma untouched_ondataavailable: "vad_untouched s (ondataavailable d s)"
  by (simp add: vad_untouched_def ondataavailable_def)

lemma untouched_onstop: "vad_untouched s (onstop s)"
  by (simp add: onstop_def untouched_processAudioAndContinue)

lemma untouched_stopListening: "vad_untouched s (stopListening s)"
proof -
  define s6 where "s6 =
    (let s1 = s\<lparr>isListening := False\<rparr>;
          s2 = (if silenceTimer s1 \<noteq> None
                then emit ClearTimeout (s1\<lparr>silenceTimer := None\<rparr>) else s1);
          s3 = (if mediaRecorder s2 \<noteq> None \<and> mediaRecorder s2 \<noteq> Some inactive
                then stopRecorder ByStopListening s2 else s2);
          s4 = (if stream s3 \<noteq> None
                then emit TracksStop (s3\<lparr>stream := None\<rparr>) else s3);
          s5 = (if audioContext s4 \<noteq> None \<and> audioContext s4 \<noteq> Some closed
                then emit ContextClose (s4\<lparr>audioContext := None\<rparr>) else s4)
      in s5\<lparr>analyser := False\<rparr>)"
  have a: "vad_untouched s s6"
    by (simp add: s6_def Let_def vad_untouched_def emit_def stopRecorder_def)
  have "stopListening s = (if audioChunks s6 \<noteq> [] \<and> \<not> isProcessingRef s6
                           then fst (processAudio StopListening s6) else s6)"
    by (simp only: stopListening_def s6_def Let_def)
  then show ?thesis
    using a untouched_processAudio [of s6 StopListening]
    by (auto intro: vad_untouched_trans)
qed

lemma untouched_resume: "vad_untouched s (resume k out s)"
proof (cases "k < length (tasks s)")
  case False
  then show ?thesis by (simp add: resume_def)
next
  case True
  show ?thesis
  proof (cases "continueTask (chunksToProcess (tasks s ! k)) (awaiting (tasks s ! k)) out s")
    case None
    then show ?thesis using True by (simp add: resume_def)
  next
    case (Some res)
    obtain s1 r where res: "res = (s1, r)" by (cases res)
    have u: "vad_untouched s s1" using Some res by (auto dest: untouched_continueTask)
    show ?thesis
    proof (cases r)
      case None
      define s2 where "s2 = s1\<lparr>tasks := take k (tasks s1) @ drop (Suc k) (tasks s1)\<rparr>"
      have u2: "vad_untouched s s2" using u by (simp add: s2_def vad_untouched_def)
      have "resume k out s = s2 \<or> resume k out s = restartRecording s2"
        using True Some res None by (simp add: resume_def Let_def s2_def)
      then show ?thesis using u2 untouched_restartRecording [of s2]
        by (auto intro: vad_untouched_trans)
    next
      case (Some a')
      then have "resume k out s
                   = s1\<lparr>tasks := (tasks s1)[k := Task (chunksToProcess (tasks s ! k)) a'
                                                   (calledBy (tasks s ! k))]\<rparr>"
        using True \<open>continueTask (chunksToProcess (tasks s ! k)) (awaiting (tasks s ! k)) out s
                     = Some res\<close> res
        by (simp add: resume_def Let_def)
      then show ?thesis using u by (simp add: vad_untouched_def)
    qed
  qed
qed

lemma speech_kept:
  assumes "hasRecordedSpeech s"
  shows "hasRecordedSpeech (step s e)"
proof (cases e)
  case (Frame d)
  then show ?thesis using assms
    by (simp add: checkAudioLevel_def Let_def emit_def)
next
  case SilenceTimeout
  then show ?thesis using assms by (simp add: silenceTimeout_def stopRecorder_def emit_def)
next
  case (DataAvailable d)
  then show ?thesis using assms untouched_ondataavailable [of s d]
    by (simp add: vad_untouched_def)
next
  case (RecorderStopped d)
  then show ?thesis
    using assms untouched_ondataavailable [of "s\<lparr>stopEvents := stopEvents s - 1\<rparr>" d]
          untouched_onstop [of "ondataavailable d (s\<lparr>stopEvents := stopEvents s - 1\<rparr>)"]
    by (simp add: vad_untouched_def)
next
  case StopRequested
  then show ?thesis using assms untouched_stopListening [of s] by (simp add: vad_untouched_def)
next
  case (Resume k out)
  then show ?thesis using assms untouched_resume [of s k out] by (simp add: vad_untouched_def)
next
  case (Clock t)
  then show ?thesis using assms by simp
qed

lemma untouched_silent: "silent_inv s \<Longrightarrow> vad_untouched s s' \<Longrightarrow> silent_inv s'"
  by (auto simp: silent_inv_def vad_untouched_def)

lemma silent_step: "silent_inv s \<Longrightarrow> \<not> loud e \<Longrightarrow> silent_inv (step s e)"
proof (cases e)
  case (Frame d)
  assume "silent_inv s" "\<not> loud e"
  then show ?thesis using Frame
    by (auto simp: silent_inv_def checkAudioLevel_def Let_def emit_def)
next
  case SilenceTimeout
  assume "silent_inv s"
  then show ?thesis using SilenceTimeout by (simp add: silent_inv_def)
next
  case (DataAvailable d)
  assume "silent_inv s"
  then show ?thesis using DataAvailable untouched_ondataavailable [of s d]
    by (auto intro: untouched_silent)
next
  case (RecorderStopped d)
  assume "silent_inv s"
  then have "silent_inv (s\<lparr>stopEvents := stopEvents s - 1\<rparr>)" by (simp add: silent_inv_def)
  then have "silent_inv (onstop (ondataavailable d (s\<lparr>stopEvents := stopEvents s - 1\<rparr>)))"
    using untouched_ondataavailable untouched_onstop by (blast intro: untouched_silent)
  then show ?thesis using RecorderStopped \<open>silent_inv s\<close> by simp
next
  case StopRequested
  assume "silent_inv s"
  then show ?thesis using StopRequested untouched_stopListening [of s]
    by (auto intro: untouched_silent)
next
  case (Resume k out)
  assume "silent_inv s"
  then show ?thesis using Resume untouched_resume [of s k out]
    by (auto intro: untouched_silent)
next
  case (Clock t)
  assume "silent_inv s"
  then show ?thesis using Clock by (simp add: silent_inv_def)
qed

lemma silent_foldl:
  "silent_inv s \<Longrightarrow> \<forall>e \<in> set evs. \<not> loud e \<Longrightarrow> silent_inv (foldl step s evs)"
  by (induction evs arbitrary: s) (simp_all add: silent_step)

text \<open>
  Claim C3, as amended. If no frame since the start of the session has an amplitude above
  the threshold, no boundary fires: pure silence from the start produces no boundary.
  The flag that records speech is never reset, by a boundary or by anything else: once a
  frame has exceeded the threshold, it stays set for the rest of the session.
\<close>

theorem no_boundary_before_speech:
  "((\<forall>e \<in> set evs. \<not> loud e) \<longrightarrow>
      boundaries (trace (run (init text0 time0) evs)) = 0
      \<and> \<not> hasRecordedSpeech (run (init text0 time0) evs))
   \<and> (hasRecordedSpeech s \<longrightarrow> hasRecordedSpeech (step s e))"
proof -
  have "silent_inv (init text0 time0)" by (simp add: silent_inv_def init_def)
  then have "(\<forall>e \<in> set evs. \<not> loud e) \<longrightarrow> silent_inv (run (init text0 time0) evs)"
    unfolding run_def by (auto intro: silent_foldl)
  then show ?thesis using speech_kept [of s e] by (auto simp: silent_inv_def)
qed

theorem no_boundary_before_speech_witness:
  "boundaries (trace (run (init [] 0)
      [Frame silentFrame, DataAvailable [1], Clock 1500, Frame silentFrame, SilenceTimeout])) = 0
   \<and> hasRecordedSpeech (step (step (init [] 0) (Frame loudFrame)) StopRequested)"
proof -
  have q: "\<forall>e \<in> set [Frame silentFrame, DataAvailable [1], Clock 1500, Frame silentFrame,
                         SilenceTimeout]. \<not> loud e"
    by (simp add: amplitude_silentFrame)
  have h: "hasRecordedSpeech (step (init [] 0) (Frame loudFrame))"
    by (simp add: init_def checkAudioLevel_def frame_lengths amplitude_loudFrame)
  show ?thesis
    using no_boundary_before_speech [of
        "[Frame silentFrame, DataAvailable [1], Clock 1500, Frame silentFrame, SilenceTimeout]"
        "[]" 0 "step (init [] 0) (Frame loudFrame)" StopRequested] q h
    by blast
qed

text \<open>
  Claim C3, as stated, fails: one loud frame, a boundary, and then a second boundary after
  silence alone. The speech flag is not reset when the first boundary fires.
\<close>

theorem boundary_without_new_speech:
  "\<not> speech_gated False (init [] 0)
       [Frame loudFrame, DataAvailable [1], Clock 1500, Frame silentFrame, SilenceTimeout,
        RecorderStopped [2], Resume 0 ArrayBufferResolved, Resume 0 (Rejected (Exn (Some (lit ''Unable to decode audio data'')))),
        DataAvailable [3], Clock 3000, Frame silentFrame, SilenceTimeout]
   \<and> trace (run (init [] 0)
       [Frame loudFrame, DataAvailable [1], Clock 1500, Frame silentFrame, SilenceTimeout,
        RecorderStopped [2], Resume 0 ArrayBufferResolved, Resume 0 (Rejected (Exn (Some (lit ''Unable to decode audio data'')))),
        DataAvailable [3], Clock 3000, Frame silentFrame, SilenceTimeout])
     = [SetTimeout, RecorderStop BySilenceTimer, ClearTimeout, Accepted [[1], [2]],
        DecodeAudioData [1, 2], ConsoleWarn, Settled [[1], [2]], RecorderStart,
        SetTimeout, RecorderStop BySilenceTimer]"
  by (simp add: run_simps boundaries_def)

section \<open>stopListening: release, then hand-off\<close>

text \<open>
  Claim C4, as stated, fails: the hand-off of stopListening comes after the recorder, the
  stream tracks and the analysis context are released.
\<close>

theorem handoff_not_before_release:
  "\<not> precedes (Accepted [[1]]) TracksStop
       (trace (step (run (init [] 0) [DataAvailable [1]]) StopRequested))
   \<and> trace (step (run (init [] 0) [DataAvailable [1]]) StopRequested)
       = [RecorderStop ByStopListening, TracksStop, ContextClose, Accepted [[1]]]"
proof -
  have t: "trace (step (run (init [] 0) [DataAvailable [1]]) StopRequested)
             = [RecorderStop ByStopListening, TracksStop, ContextClose, Accepted [[1]]]"
    by (simp add: run_simps)
  show ?thesis unfolding t by (simp add: precedes_def)
qed

text \<open>
  Claim C4, as amended. When stop is requested while the chunk buffer is not empty, no
  processing is in flight and the model is loaded, stopListening first clears the pending
  timer, stops the recorder, stops the stream tracks and closes the analysis context
  (each if present), and then makes exactly one hand-off, of all the buffered chunks.
\<close>

theorem stop_flushes_after_release:
  assumes "audioChunks s \<noteq> []" and "\<not> isProcessingRef s" and "transcriber s"
  shows "\<exists>fin. trace (stopListening s) =
           trace s
           @ (if silenceTimer s \<noteq> None then [ClearTimeout] else [])
           @ (if mediaRecorder s = Some recording then [RecorderStop ByStopListening] else [])
           @ (if stream s \<noteq> None then [TracksStop] else [])
           @ (if audioContext s = Some running then [ContextClose] else [])
           @ [Accepted (audioChunks s)] @ fin
         \<and> (fin = [] \<and> tasks (stopListening s)
                 = tasks s @ [Task (audioChunks s) (AwaitArrayBuffer (concat (audioChunks s)))
                                StopListening]
              \<or> fin = [Settled (audioChunks s)] \<and> concat (audioChunks s) = []
                 \<and> tasks (stopListening s) = tasks s)
         \<and> stream (stopListening s) = None
         \<and> \<not> analyser (stopListening s)
         \<and> silenceTimer (stopListening s) = None
         \<and> mediaRecorder (stopListening s) \<noteq> Some recording
         \<and> audioChunks (stopListening s) = []"
proof -
  define s6 where "s6 =
    (let s1 = s\<lparr>isListening := False\<rparr>;
          s2 = (if silenceTimer s1 \<noteq> None
                then emit ClearTimeout (s1\<lparr>silenceTimer := None\<rparr>) else s1);
          s3 = (if mediaRecorder s2 \<noteq> None \<and> mediaRecorder s2 \<noteq> Some inactive
                then stopRecorder ByStopListening s2 else s2);
          s4 = (if stream s3 \<noteq> None
                then emit TracksStop (s3\<lparr>stream := None\<rparr>) else s3);
          s5 = (if audioContext s4 \<noteq> None \<and> audioContext s4 \<noteq> Some closed
                then emit ContextClose (s4\<lparr>audioContext := None\<rparr>) else s4)
      in s5\<lparr>analyser := False\<rparr>)"
  have r: "mediaRecorder s = None \<or> mediaRecorder s = Some inactive
           \<or> mediaRecorder s = Some recording"
    by (cases "mediaRecorder s") (auto intro: recorder_state.exhaust)
  have c: "audioContext s = None \<or> audioContext s = Some closed
           \<or> audioContext s = Some running"
    by (cases "audioContext s") (auto intro: context_state.exhaust)
  have tr: "trace s6 = trace s
           @ (if silenceTimer s \<noteq> None then [ClearTimeout] else [])
           @ (if mediaRecorder s = Some recording then [RecorderStop ByStopListening] else [])
           @ (if stream s \<noteq> None then [TracksStop] else [])
           @ (if audioContext s = Some running then [ContextClose] else [])"
    using r c unfolding s6_def Let_def
    by (elim disjE; simp add: emit_def stopRecorder_def)
  have f: "audioChunks s6 = audioChunks s" "isProcessingRef s6 = isProcessingRef s"
    "transcriber s6 = transcriber s" "tasks s6 = tasks s" "stream s6 = None"
    "\<not> analyser s6" "silenceTimer s6 = None" "mediaRecorder s6 \<noteq> Some recording"
    unfolding s6_def Let_def by (simp_all add: emit_def stopRecorder_def)
  have "stopListening s = (if audioChunks s6 \<noteq> [] \<and> \<not> isProcessingRef s6
                           then fst (processAudio StopListening s6) else s6)"
    by (simp only: stopListening_def s6_def Let_def)
  then have e: "stopListening s = fst (processAudio StopListening s6)"
    using assms f by simp
  show ?thesis
  proof (cases "concat (audioChunks s) = []")
    case True
    have "stopListening s = settle (audioChunks s)
            (emit (Accepted (audioChunks s))
               (s6\<lparr>isProcessingRef := True, isProcessing := True, audioChunks := []\<rparr>))"
      using e assms f True by (auto simp: processAudio_def Let_def)
    then show ?thesis using tr f True
      by (simp add: settle_def emit_def)
  next
    case False
    have "stopListening s =
            (emit (Accepted (audioChunks s))
               (s6\<lparr>isProcessingRef := True, isProcessing := True, audioChunks := []\<rparr>))
            \<lparr>tasks := tasks s @ [Task (audioChunks s)
                         (AwaitArrayBuffer (concat (audioChunks s))) StopListening]\<rparr>"
      using e assms f False by (auto simp: processAudio_def Let_def emit_def)
    then show ?thesis using tr f False
      by (simp add: emit_def)
  qed
qed

theorem stop_flushes_after_release_witness:
  "trace (stopListening (run (init [] 0) [DataAvailable [1, 2], DataAvailable [3]]))
     = [RecorderStop ByStopListening, TracksStop, ContextClose, Accepted [[1, 2], [3]]]
   \<and> tasks (stopListening (run (init [] 0) [DataAvailable [1, 2], DataAvailable [3]]))
     = [Task [[1, 2], [3]] (AwaitArrayBuffer [1, 2, 3]) StopListening]"
  using stop_flushes_after_release [of "run (init [] 0) [DataAvailable [1, 2], DataAvailable [3]]"]
  by (simp add: run_def init_def ondataavailable_def)

end
